theory Spec2Isabelle
  imports Complex_Main "HOL-Library.Log_Nat"
begin

section \<open>Exceptions, rows and outcomes\<close>

text \<open>
  The analysis functions of \<^verbatim>\<open>app.py\<close> read the CSV tables through \<^verbatim>\<open>load_data\<close>,
  compute, and print or plot. The tables are the parameters of the model (a row is the
  list of its fields, as \<^verbatim>\<open>csv.reader\<close> yields it), the computed values are its
  result, and every exception the computation can raise is a value of \<open>error\<close>.
  A Python \<^verbatim>\<open>str\<close> is a \<open>string\<close>; a \<open>char\<close> stands for a code point below 256.
\<close>

datatype error =
    IndexError
  | KeyError string
  | IntValueError string
  | DateValueError string
  | UnpackValueError
  | OverflowError

text \<open>
  \<open>IntValueError s\<close> is the \<^verbatim>\<open>ValueError\<close> of \<^verbatim>\<open>int(s)\<close>, \<open>DateValueError s\<close> the
  \<^verbatim>\<open>ValueError\<close> that \<^verbatim>\<open>parse_date\<close> raises itself, \<open>UnpackValueError\<close> the
  \<^verbatim>\<open>ValueError\<close> of unpacking too few values.
\<close>

type_synonym row = "string list"

text \<open>A function that prints the no-data message and returns, or goes on to its report.\<close>

datatype 'a outcome = NoData | Report 'a

definition getitem :: "'a list \<Rightarrow> nat \<Rightarrow> error + 'a" where
  "getitem xs i = (if i < length xs then Inr (xs ! i) else Inl IndexError)"

section \<open>The conversion \<^verbatim>\<open>int(s)\<close>\<close>

definition is_space :: "char \<Rightarrow> bool" where
  "is_space c = ((of_char c :: nat) \<in> {9, 10, 11, 12, 13, 32, 133, 160})"

definition is_digit :: "char \<Rightarrow> bool" where
  "is_digit c = (48 \<le> (of_char c :: nat) \<and> (of_char c :: nat) \<le> 57)"

definition digit_val :: "char \<Rightarrow> nat" where
  "digit_val c = of_char c - 48"

definition strip :: "string \<Rightarrow> string" where
  "strip s = rev (dropWhile is_space (rev (dropWhile is_space s)))"

text \<open>Digits, with single underscores allowed between two digits; the underscores are dropped.\<close>

fun scan_digits :: "string \<Rightarrow> string option" where
  "scan_digits [] = None"
| "scan_digits [c] = (if is_digit c then Some [c] else None)"
| "scan_digits (c # u # cs) =
     (if \<not> is_digit c then None
      else if u = CHR ''_'' then map_option ((#) c) (scan_digits cs)
      else map_option ((#) c) (scan_digits (u # cs)))"

definition decimal :: "string \<Rightarrow> nat" where
  "decimal ds = foldl (\<lambda>a c. 10 * a + digit_val c) 0 ds"

definition max_str_digits :: nat where
  "max_str_digits = 4300"

definition py_int :: "string \<Rightarrow> error + int" where
  "py_int s =
     (let t = strip s;
          neg = (t \<noteq> [] \<and> hd t = CHR ''-'');
          body = (if t \<noteq> [] \<and> (hd t = CHR ''-'' \<or> hd t = CHR ''+'') then tl t else t)
      in case scan_digits body of
           None \<Rightarrow> Inl (IntValueError s)
         | Some ds \<Rightarrow>
             if max_str_digits < length ds then Inl (IntValueError s)
             else Inr (if neg then - int (decimal ds) else int (decimal ds)))"

section \<open>List comprehensions over the sales table\<close>

text \<open>
  \<^verbatim>\<open>[int(sale[2]) for sale in sales_data if cond(sale)]\<close>: the condition is evaluated
  on every row in order, the element \<^verbatim>\<open>int(sale[2])\<close> only on the rows that pass,
  and the first exception ends the loop.
\<close>

definition sale_amount :: "row \<Rightarrow> error + int" where
  "sale_amount sale = (case getitem sale 2 of Inl e \<Rightarrow> Inl e | Inr a \<Rightarrow> py_int a)"

fun amounts_where :: "(row \<Rightarrow> error + bool) \<Rightarrow> row list \<Rightarrow> error + int list" where
  "amounts_where cond [] = Inr []"
| "amounts_where cond (sale # sales) =
     (case cond sale of
        Inl e \<Rightarrow> Inl e
      | Inr False \<Rightarrow> amounts_where cond sales
      | Inr True \<Rightarrow>
          (case sale_amount sale of
             Inl e \<Rightarrow> Inl e
           | Inr n \<Rightarrow>
               (case amounts_where cond sales of
                  Inl e \<Rightarrow> Inl e
                | Inr ns \<Rightarrow> Inr (n # ns))))"

definition field_equals :: "nat \<Rightarrow> string \<Rightarrow> row \<Rightarrow> error + bool" where
  "field_equals i key sale = (case getitem sale i of Inl e \<Rightarrow> Inl e | Inr v \<Rightarrow> Inr (v = key))"

section \<open>Calendar dates\<close>

text \<open>
  \<^verbatim>\<open>datetime\<close> of the standard library: the proleptic Gregorian calendar with years 1 to
  9999, a date stored as its fields and compared field by field. The arithmetic with a
  \<^verbatim>\<open>timedelta\<close> of whole days goes through the day number (\<^verbatim>\<open>toordinal\<close>,
  \<^verbatim>\<open>fromordinal\<close>), keeps the time of day, and raises \<^verbatim>\<open>OverflowError\<close> outside
  the range.
\<close>

record datetime =
  year :: int
  month :: int
  day :: int
  hour :: int
  minute :: int
  second :: int
  microsecond :: int

definition MINYEAR :: int where "MINYEAR = 1"
definition MAXYEAR :: int where "MAXYEAR = 9999"
definition MAXORDINAL :: int where "MAXORDINAL = 3652059"

definition DAYS_IN_MONTH :: "int list" where
  "DAYS_IN_MONTH = [-1, 31, 28, 31, 30, 31, 30, 31, 31, 30, 31, 30, 31]"

definition DAYS_BEFORE_MONTH :: "int list" where
  "DAYS_BEFORE_MONTH = [-1, 0, 31, 59, 90, 120, 151, 181, 212, 243, 273, 304, 334]"

definition is_leap :: "int \<Rightarrow> bool" where
  "is_leap y = (y mod 4 = 0 \<and> (y mod 100 \<noteq> 0 \<or> y mod 400 = 0))"

definition days_before_year :: "int \<Rightarrow> int" where
  "days_before_year y = (let z = y - 1 in z * 365 + z div 4 - z div 100 + z div 400)"

definition days_in_month :: "int \<Rightarrow> int \<Rightarrow> int" where
  "days_in_month y m = (if m = 2 \<and> is_leap y then 29 else DAYS_IN_MONTH ! nat m)"

definition days_before_month :: "int \<Rightarrow> int \<Rightarrow> int" where
  "days_before_month y m = DAYS_BEFORE_MONTH ! nat m + (if m > 2 \<and> is_leap y then 1 else 0)"

definition ymd2ord :: "int \<Rightarrow> int \<Rightarrow> int \<Rightarrow> int" where
  "ymd2ord y m d = days_before_year y + days_before_month y m + d"

definition DI400Y :: int where "DI400Y = 146097"
definition DI100Y :: int where "DI100Y = 36524"
definition DI4Y :: int where "DI4Y = 1461"

definition ord2ymd :: "int \<Rightarrow> int \<times> int \<times> int" where
  "ord2ymd n =
     (let n0 = n - 1;
          n400 = n0 div DI400Y; n1 = n0 mod DI400Y;
          n100 = n1 div DI100Y; n2 = n1 mod DI100Y;
          n4 = n2 div DI4Y; n3 = n2 mod DI4Y;
          ny = n3 div 365; n5 = n3 mod 365;
          y = n400 * 400 + 1 + n100 * 100 + n4 * 4 + ny
      in if ny = 4 \<or> n100 = 4 then (y - 1, 12, 31)
         else
           let leapyear = (ny = 3 \<and> (n4 \<noteq> 24 \<or> n100 = 3));
               m = (n5 + 50) div 32;
               preceding = DAYS_BEFORE_MONTH ! nat m + (if m > 2 \<and> leapyear then 1 else 0)
           in if preceding > n5
              then (y, m - 1,
                    n5 - (preceding - (DAYS_IN_MONTH ! nat (m - 1)
                                       + (if m - 1 = 2 \<and> leapyear then 1 else 0))) + 1)
              else (y, m, n5 - preceding + 1))"

definition check_date_fields :: "int \<Rightarrow> int \<Rightarrow> int \<Rightarrow> bool" where
  "check_date_fields y m d =
     (MINYEAR \<le> y \<and> y \<le> MAXYEAR \<and> 1 \<le> m \<and> m \<le> 12 \<and> 1 \<le> d \<and> d \<le> days_in_month y m)"

definition toordinal :: "datetime \<Rightarrow> int" where
  "toordinal t = ymd2ord (year t) (month t) (day t)"

definition weekday :: "datetime \<Rightarrow> int" where
  "weekday t = (toordinal t + 6) mod 7"

definition add_days :: "datetime \<Rightarrow> int \<Rightarrow> error + datetime" where
  "add_days t n =
     (let days = toordinal t + n
      in if 0 < days \<and> days \<le> MAXORDINAL
         then (case ord2ymd days of (y, m, d) \<Rightarrow> Inr (t\<lparr>year := y, month := m, day := d\<rparr>))
         else Inl OverflowError)"

definition sub_days :: "datetime \<Rightarrow> int \<Rightarrow> error + datetime" where
  "sub_days t n = add_days t (- n)"

fun tuple_le :: "int list \<Rightarrow> int list \<Rightarrow> bool" where
  "tuple_le [] ys = True"
| "tuple_le (x # xs) [] = False"
| "tuple_le (x # xs) (y # ys) = (x < y \<or> (x = y \<and> tuple_le xs ys))"

definition dt_tuple :: "datetime \<Rightarrow> int list" where
  "dt_tuple t = [year t, month t, day t, hour t, minute t, second t, microsecond t]"

definition dt_le :: "datetime \<Rightarrow> datetime \<Rightarrow> bool" where
  "dt_le a b = tuple_le (dt_tuple a) (dt_tuple b)"

section \<open>\<^verbatim>\<open>strptime\<close> and \<^verbatim>\<open>strftime\<close> for the directives \<^verbatim>\<open>%Y\<close>, \<^verbatim>\<open>%m\<close>, \<^verbatim>\<open>%d\<close>\<close>

text \<open>
  \<^verbatim>\<open>strptime\<close> turns the format into a regular expression, one group per directive:
  \<^verbatim>\<open>%Y\<close> is \<^verbatim>\<open>\d\d\d\d\<close>, \<^verbatim>\<open>%m\<close> is \<^verbatim>\<open>1[0-2]|0[1-9]|[1-9]\<close>, \<^verbatim>\<open>%d\<close> is
  \<^verbatim>\<open>3[0-1]|[1-2]\d|0[1-9]|[1-9]| [1-9]\<close>. The expression is matched at the start of
  the string, alternatives tried in order with backtracking; the first match must end
  at the end of the string, and the fields must make a date. Every failure is a
  \<^verbatim>\<open>ValueError\<close>, here \<open>None\<close>.
\<close>

datatype directive = DY | Dm | Dd

datatype fmt_item = Dir directive | Lit char

definition fmt_ymd :: "fmt_item list" where
  "fmt_ymd = [Dir DY, Lit (CHR ''-''), Dir Dm, Lit (CHR ''-''), Dir Dd]"

definition fmt_mdy :: "fmt_item list" where
  "fmt_mdy = [Dir Dm, Lit (CHR ''/''), Dir Dd, Lit (CHR ''/''), Dir DY]"

definition between :: "char \<Rightarrow> char \<Rightarrow> char \<Rightarrow> bool" where
  "between lo hi c = ((of_char lo :: nat) \<le> of_char c \<and> (of_char c :: nat) \<le> of_char hi)"

definition one_char :: "(char \<Rightarrow> bool) \<Rightarrow> string \<Rightarrow> (string \<times> string) list" where
  "one_char p s = (case s of a # r \<Rightarrow> if p a then [([a], r)] else [] | [] \<Rightarrow> [])"

definition two_chars ::
  "(char \<Rightarrow> bool) \<Rightarrow> (char \<Rightarrow> bool) \<Rightarrow> string \<Rightarrow> (string \<times> string) list" where
  "two_chars p q s =
     (case s of a # b # r \<Rightarrow> if p a \<and> q b then [([a, b], r)] else [] | _ \<Rightarrow> [])"

text \<open>The ways a directive can match at the start of \<open>s\<close>, in the order tried: (text, rest).\<close>

fun alternatives :: "directive \<Rightarrow> string \<Rightarrow> (string \<times> string) list" where
  "alternatives DY s =
     (case s of
        a # b # c # d # r \<Rightarrow>
          if is_digit a \<and> is_digit b \<and> is_digit c \<and> is_digit d then [([a, b, c, d], r)] else []
      | _ \<Rightarrow> [])"
| "alternatives Dm s =
     two_chars ((=) (CHR ''1'')) (between (CHR ''0'') (CHR ''2'')) s
     @ two_chars ((=) (CHR ''0'')) (between (CHR ''1'') (CHR ''9'')) s
     @ one_char (between (CHR ''1'') (CHR ''9'')) s"
| "alternatives Dd s =
     two_chars ((=) (CHR ''3'')) (between (CHR ''0'') (CHR ''1'')) s
     @ two_chars (between (CHR ''1'') (CHR ''2'')) is_digit s
     @ two_chars ((=) (CHR ''0'')) (between (CHR ''1'') (CHR ''9'')) s
     @ one_char (between (CHR ''1'') (CHR ''9'')) s
     @ two_chars ((=) (CHR '' '')) (between (CHR ''1'') (CHR ''9'')) s"

fun first_some :: "'a option list \<Rightarrow> 'a option" where
  "first_some [] = None"
| "first_some (None # xs) = first_some xs"
| "first_some (Some x # xs) = Some x"

fun re_match :: "fmt_item list \<Rightarrow> string \<Rightarrow> ((directive \<times> string) list \<times> string) option" where
  "re_match [] s = Some ([], s)"
| "re_match (Lit c # items) s =
     (case s of [] \<Rightarrow> None | x # r \<Rightarrow> if x = c then re_match items r else None)"
| "re_match (Dir d # items) s =
     first_some
       (map (\<lambda>(txt, r). map_option (\<lambda>(groups, rest). ((d, txt) # groups, rest)) (re_match items r))
          (alternatives d s))"

definition group_int :: "directive \<Rightarrow> int \<Rightarrow> (directive \<times> string) list \<Rightarrow> int option" where
  "group_int d dflt groups =
     (case map_of groups d of
        None \<Rightarrow> Some dflt
      | Some txt \<Rightarrow> (case py_int txt of Inl e \<Rightarrow> None | Inr n \<Rightarrow> Some n))"

definition strptime :: "string \<Rightarrow> fmt_item list \<Rightarrow> datetime option" where
  "strptime data_string format =
     (case re_match format data_string of
        None \<Rightarrow> None
      | Some (groups, rest) \<Rightarrow>
          if rest \<noteq> [] then None
          else
            (case (group_int DY 1900 groups, group_int Dm 1 groups, group_int Dd 1 groups) of
               (Some y, Some m, Some d) \<Rightarrow>
                 if check_date_fields y m d
                 then Some \<lparr>year = y, month = m, day = d,
                            hour = 0, minute = 0, second = 0, microsecond = 0\<rparr>
                 else None
             | _ \<Rightarrow> None))"

text \<open>
  \<^verbatim>\<open>strftime\<close> hands the format to the C library, which on Linux writes \<^verbatim>\<open>%Y\<close> as the
  decimal number of the year without padding, and \<^verbatim>\<open>%m\<close> and \<^verbatim>\<open>%d\<close> with two digits.
\<close>

function digits_of :: "nat \<Rightarrow> string" where
  "digits_of n =
     (if n < 10 then [char_of (48 + n)] else digits_of (n div 10) @ [char_of (48 + n mod 10)])"
  by pat_completeness auto
termination
  by (relation "measure id") auto

declare digits_of.simps [simp del]

definition zero_pad :: "nat \<Rightarrow> nat \<Rightarrow> string" where
  "zero_pad w n = replicate (w - length (digits_of n)) (CHR ''0'') @ digits_of n"

fun strftime_item :: "datetime \<Rightarrow> fmt_item \<Rightarrow> string" where
  "strftime_item t (Lit c) = [c]"
| "strftime_item t (Dir DY) = digits_of (nat (year t))"
| "strftime_item t (Dir Dm) = zero_pad 2 (nat (month t))"
| "strftime_item t (Dir Dd) = zero_pad 2 (nat (day t))"

definition strftime :: "datetime \<Rightarrow> fmt_item list \<Rightarrow> string" where
  "strftime t format = concat (map (strftime_item t) format)"

section \<open>The date parser\<close>

fun try_formats :: "string \<Rightarrow> fmt_item list list \<Rightarrow> error + datetime" where
  "try_formats date_str [] = Inl (DateValueError date_str)"
| "try_formats date_str (fmt # fmts) =
     (case strptime date_str fmt of
        Some t \<Rightarrow> Inr t
      | None \<Rightarrow> try_formats date_str fmts)"

definition parse_date :: "string \<Rightarrow> error + datetime" where
  "parse_date date_str = try_formats date_str [fmt_ymd, fmt_mdy]"

section \<open>Sales of one branch\<close>

text \<open>The report is the sample handed to the histogram.\<close>

definition analyze_monthly_sales :: "string \<Rightarrow> row list \<Rightarrow> error + int list outcome" where
  "analyze_monthly_sales branch_id sales_data =
     (case amounts_where (field_equals 0 branch_id) sales_data of
        Inl e \<Rightarrow> Inl e
      | Inr branch_sales \<Rightarrow> Inr (if branch_sales = [] then NoData else Report branch_sales))"

section \<open>Double precision\<close>

text \<open>
  numpy computes in double precision. A double is modelled by the rational number it
  denotes, and an operation by its exact result rounded to the nearest number with a
  significand of 53 bits, a tie going to the even significand. The exponent is not
  bounded: the sums and means of an array of 64-bit integers are far inside the range
  of a double.
\<close>

definition round_even :: "rat \<Rightarrow> int" where
  "round_even m =
     (let f = \<lfloor>m\<rfloor>; d = m - of_int f
      in if d < 1 / 2 then f else if 1 / 2 < d then f + 1 else if even f then f else f + 1)"

text \<open>For \<open>q \<noteq> 0\<close>, the exponent \<open>e\<close> with \<open>2 powi e \<le> \<bar>q\<bar> < 2 powi (e + 1)\<close>.\<close>

definition ilog2 :: "rat \<Rightarrow> int" where
  "ilog2 q =
     (case quotient_of \<bar>q\<bar> of
        (a, b) \<Rightarrow> let d = bitlen a - bitlen b in if 2 powi d \<le> \<bar>q\<bar> then d else d - 1)"

definition fl64 :: "rat \<Rightarrow> rat" where
  "fl64 q =
     (if q = 0 then 0
      else let u = 2 powi (ilog2 q - 52) in sgn q * (of_int (round_even (\<bar>q\<bar> / u)) * u))"

definition fadd :: "rat \<Rightarrow> rat \<Rightarrow> rat" where
  "fadd a b = fl64 (a + b)"

definition fdiv :: "rat \<Rightarrow> rat \<Rightarrow> rat" where
  "fdiv a b = fl64 (a / b)"

section \<open>The numpy reductions\<close>

text \<open>
  The four reductions that the price analysis and the weekly analysis call on a list of
  integers. They belong to the library, not to the program: the analyses take them as
  the parameter \<open>np\<close>. Each returns a number or raises.
\<close>

record numpy =
  np_mean :: "int list \<Rightarrow> error + rat"
  np_max :: "int list \<Rightarrow> error + rat"
  np_min :: "int list \<Rightarrow> error + rat"
  np_median :: "int list \<Rightarrow> error + rat"

text \<open>
  What the library computes on a non-empty list whose elements all fit 64-bit signed
  integers, which it turns into an array of \<^verbatim>\<open>int64\<close>. The maximum and the minimum are
  exact. The mean converts each element to a double, adds the doubles up and divides by
  the count. The sum goes through the array in buffers of 8192 elements; inside a buffer
  it is pairwise: fewer than 8 elements are added in order, up to 128 elements are added
  into 8 running sums that are then combined, and a longer piece is split in two near
  the middle, at a multiple of 8. The median sorts and takes the mean of the middle
  element, or of the two middle elements.
\<close>

definition fits_int64 :: "int list \<Rightarrow> bool" where
  "fits_int64 xs = (xs \<noteq> [] \<and> list_all (\<lambda>x. - (2 ^ 63) \<le> x \<and> x < 2 ^ 63) xs)"

function add8 :: "rat list \<Rightarrow> rat list \<Rightarrow> rat list \<times> rat list" where
  "add8 r xs =
     (if 8 \<le> length xs then add8 (map2 fadd r (take 8 xs)) (drop 8 xs) else (r, xs))"
  by pat_completeness auto
termination
  by (relation "measure (\<lambda>(r, xs). length xs)") auto

declare add8.simps [simp del]

fun tree8 :: "rat list \<Rightarrow> rat" where
  "tree8 [r0, r1, r2, r3, r4, r5, r6, r7] =
     fadd (fadd (fadd r0 r1) (fadd r2 r3)) (fadd (fadd r4 r5) (fadd r6 r7))"
| "tree8 r = 0"

definition block_sum :: "rat list \<Rightarrow> rat" where
  "block_sum a = (case add8 (take 8 a) (drop 8 a) of (r, rest) \<Rightarrow> foldl fadd (tree8 r) rest)"

definition PW_BLOCKSIZE :: nat where
  "PW_BLOCKSIZE = 128"

definition half8 :: "nat \<Rightarrow> nat" where
  "half8 n = n div 2 - (n div 2) mod 8"

function pairwise_sum :: "rat list \<Rightarrow> rat" where
  "pairwise_sum a =
     (if length a < 8 then foldl fadd 0 a
      else if length a \<le> PW_BLOCKSIZE then block_sum a
      else fadd (pairwise_sum (take (half8 (length a)) a))
                (pairwise_sum (drop (half8 (length a)) a)))"
  by pat_completeness auto
termination
  by (relation "measure length") (auto simp: PW_BLOCKSIZE_def half8_def)

declare pairwise_sum.simps [simp del]

definition bufsize :: nat where
  "bufsize = 8192"

function buffered_sum :: "rat \<Rightarrow> rat list \<Rightarrow> rat" where
  "buffered_sum acc a =
     (if a = [] then acc
      else buffered_sum (fadd acc (pairwise_sum (take bufsize a))) (drop bufsize a))"
  by pat_completeness auto
termination
  by (relation "measure (\<lambda>(acc, a). length a)") (auto simp: bufsize_def)

declare buffered_sum.simps [simp del]

definition mean_int64 :: "int list \<Rightarrow> rat" where
  "mean_int64 xs =
     fdiv (buffered_sum 0 (map (\<lambda>x. fl64 (of_int x)) xs)) (fl64 (of_nat (length xs)))"

definition max_int64 :: "int list \<Rightarrow> rat" where
  "max_int64 xs = of_int (fold max (tl xs) (hd xs))"

definition min_int64 :: "int list \<Rightarrow> rat" where
  "min_int64 xs = of_int (fold min (tl xs) (hd xs))"

definition median_int64 :: "int list \<Rightarrow> rat" where
  "median_int64 xs =
     (let part = sort xs; index = length part div 2
      in if length part mod 2 = 1 then mean_int64 [part ! index]
         else mean_int64 [part ! (index - 1), part ! index])"

text \<open>
  The library on every list: as above where the list fits, and as \<open>beyond\<close> elsewhere
  (an empty list, or an element outside the 64-bit signed integers, for which the
  library chooses another element type).
\<close>

definition numpy64 :: "numpy \<Rightarrow> numpy" where
  "numpy64 beyond =
     \<lparr>np_mean = (\<lambda>xs. if fits_int64 xs then Inr (mean_int64 xs) else np_mean beyond xs),
      np_max = (\<lambda>xs. if fits_int64 xs then Inr (max_int64 xs) else np_max beyond xs),
      np_min = (\<lambda>xs. if fits_int64 xs then Inr (min_int64 xs) else np_min beyond xs),
      np_median = (\<lambda>xs. if fits_int64 xs then Inr (median_int64 xs) else np_median beyond xs)\<rparr>"

section \<open>Price statistics of one product\<close>

record price_stats =
  average_price :: rat
  max_price :: rat
  min_price :: rat
  median_price :: rat

definition compute_stats :: "numpy \<Rightarrow> int list \<Rightarrow> error + price_stats" where
  "compute_stats np product_sales =
     (case np_mean np product_sales of
        Inl e \<Rightarrow> Inl e
      | Inr av \<Rightarrow>
          (case np_max np product_sales of
             Inl e \<Rightarrow> Inl e
           | Inr mx \<Rightarrow>
               (case np_min np product_sales of
                  Inl e \<Rightarrow> Inl e
                | Inr mn \<Rightarrow>
                    (case np_median np product_sales of
                       Inl e \<Rightarrow> Inl e
                     | Inr md \<Rightarrow>
                         Inr \<lparr>average_price = av, max_price = mx, min_price = mn,
                              median_price = md\<rparr>))))"

definition analyze_price :: "numpy \<Rightarrow> string \<Rightarrow> row list \<Rightarrow> error + price_stats outcome" where
  "analyze_price np product_id sales_data =
     (case amounts_where (field_equals 1 product_id) sales_data of
        Inl e \<Rightarrow> Inl e
      | Inr product_sales \<Rightarrow>
          if product_sales = [] then Inr NoData
          else (case compute_stats np product_sales of
                  Inl e \<Rightarrow> Inl e
                | Inr stats \<Rightarrow> Inr (Report stats)))"

section \<open>Sales of the current week\<close>

text \<open>
  \<open>current_date\<close> is the value of \<^verbatim>\<open>datetime.today()\<close>, a date with the time of day.
  The result is the pair of the two printed numbers.
\<close>

definition in_week :: "datetime \<Rightarrow> datetime \<Rightarrow> row \<Rightarrow> error + bool" where
  "in_week week_start week_end sale =
     (case getitem sale 3 of
        Inl e \<Rightarrow> Inl e
      | Inr date_str \<Rightarrow>
          (case parse_date date_str of
             Inl e \<Rightarrow> Inl e
           | Inr t \<Rightarrow> Inr (dt_le week_start t \<and> dt_le t week_end)))"

definition analyze_weekly_sales ::
  "numpy \<Rightarrow> datetime \<Rightarrow> row list \<Rightarrow> error + int \<times> rat" where
  "analyze_weekly_sales np current_date sales_data =
     (case sub_days current_date (weekday current_date) of
        Inl e \<Rightarrow> Inl e
      | Inr week_start \<Rightarrow>
          (case add_days week_start 6 of
             Inl e \<Rightarrow> Inl e
           | Inr week_end \<Rightarrow>
               (case amounts_where (in_week week_start week_end) sales_data of
                  Inl e \<Rightarrow> Inl e
                | Inr weekly_sales \<Rightarrow>
                    if weekly_sales \<noteq> []
                    then (case np_mean np weekly_sales of
                            Inl e \<Rightarrow> Inl e
                          | Inr average_sales \<Rightarrow> Inr (sum_list weekly_sales, average_sales))
                    else Inr (sum_list weekly_sales, 0))))"

section \<open>Total sales\<close>

definition analyze_total_sales_amount :: "row list \<Rightarrow> error + int" where
  "analyze_total_sales_amount sales_data =
     (case amounts_where (\<lambda>sale. Inr True) sales_data of
        Inl e \<Rightarrow> Inl e
      | Inr amounts \<Rightarrow> Inr (sum_list amounts))"

section \<open>Sales of all branches\<close>

text \<open>
  The summary dictionary is an association list in insertion order with one entry per
  key. The result is the pair of tuples handed to the bar chart.
\<close>

type_synonym summary = "(string \<times> int) list"

fun dict_set :: "summary \<Rightarrow> string \<Rightarrow> int \<Rightarrow> summary" where
  "dict_set [] k v = [(k, v)]"
| "dict_set ((k', v') # d) k v = (if k' = k then (k', v) # d else (k', v') # dict_set d k v)"

definition dict_get :: "summary \<Rightarrow> string \<Rightarrow> error + int" where
  "dict_get d k = (case map_of d k of None \<Rightarrow> Inl (KeyError k) | Some v \<Rightarrow> Inr v)"

fun init_summary :: "summary \<Rightarrow> row list \<Rightarrow> error + summary" where
  "init_summary d [] = Inr d"
| "init_summary d (branch # branches) =
     (case getitem branch 0 of
        Inl e \<Rightarrow> Inl e
      | Inr k \<Rightarrow> init_summary (dict_set d k 0) branches)"

fun add_sales :: "summary \<Rightarrow> row list \<Rightarrow> error + summary" where
  "add_sales d [] = Inr d"
| "add_sales d (sale # sales) =
     (case getitem sale 0 of
        Inl e \<Rightarrow> Inl e
      | Inr branch_id \<Rightarrow>
          (case dict_get d branch_id of
             Inl e \<Rightarrow> Inl e
           | Inr old \<Rightarrow>
               (case sale_amount sale of
                  Inl e \<Rightarrow> Inl e
                | Inr n \<Rightarrow> add_sales (dict_set d branch_id (old + n)) sales)))"

definition unzip_items :: "summary \<Rightarrow> error + string list \<times> int list" where
  "unzip_items items = (if items = [] then Inl UnpackValueError else Inr (map fst items, map snd items))"

definition analyze_all_branches_monthly_sales ::
  "row list \<Rightarrow> row list \<Rightarrow> error + string list \<times> int list" where
  "analyze_all_branches_monthly_sales sales_data branch_data =
     (case init_summary [] branch_data of
        Inl e \<Rightarrow> Inl e
      | Inr summary0 \<Rightarrow>
          (case add_sales summary0 sales_data of
             Inl e \<Rightarrow> Inl e
           | Inr monthly_sales_summary \<Rightarrow> unzip_items monthly_sales_summary))"

section \<open>Well-formed sale rows\<close>

text \<open>
  A row that holds a sale record: the four fields are there and the third is an integer
  literal. \<open>amount_of\<close> reads the amount of such a row.
\<close>

definition sale_ok :: "row \<Rightarrow> bool" where
  "sale_ok sale = (4 \<le> length sale \<and> \<not> isl (py_int (sale ! 2)))"

definition amount_of :: "row \<Rightarrow> int" where
  "amount_of sale = projr (py_int (sale ! 2))"

definition date_of :: "row \<Rightarrow> datetime" where
  "date_of sale = projr (parse_date (sale ! 3))"

text \<open>The total of the sales of one branch, and the branch IDs of the branch table.\<close>

definition branch_total :: "row list \<Rightarrow> string \<Rightarrow> int" where
  "branch_total sales_data k = sum_list (map amount_of (filter (\<lambda>s. s ! 0 = k) sales_data))"

definition branch_ids :: "row list \<Rightarrow> string set" where
  "branch_ids branch_data = (\<lambda>b. b ! 0) ` set branch_data"

text \<open>A date string in the form \<^verbatim>\<open>YYYY-MM-DD\<close>: four, two and two digits between hyphens.\<close>

definition iso_form :: "string \<Rightarrow> bool" where
  "iso_form s =
     (length s = 10 \<and> s ! 4 = CHR ''-'' \<and> s ! 7 = CHR ''-'' \<and>
      list_all (\<lambda>i. is_digit (s ! i)) [0, 1, 2, 3, 5, 6, 8, 9])"

text \<open>The two-character alternatives of \<^verbatim>\<open>%m\<close> and of \<^verbatim>\<open>%d\<close>.\<close>

definition month2 :: "char \<Rightarrow> char \<Rightarrow> bool" where
  "month2 e f = ((e = CHR ''1'' \<and> between (CHR ''0'') (CHR ''2'') f) \<or>
                 (e = CHR ''0'' \<and> between (CHR ''1'') (CHR ''9'') f))"

definition day2 :: "char \<Rightarrow> char \<Rightarrow> bool" where
  "day2 g h = ((g = CHR ''3'' \<and> between (CHR ''0'') (CHR ''1'') h) \<or>
               (between (CHR ''1'') (CHR ''2'') g \<and> is_digit h) \<or>
               (g = CHR ''0'' \<and> between (CHR ''1'') (CHR ''9'') h))"

section \<open>Lists that are summed without rounding\<close>

text \<open>
  A list of doubles whose elements are all integers, and the sum of the absolute values
  of a list. While that sum is at most \<open>2 ^ 53\<close>, every partial sum that the library
  forms is an integer of at most that size, which a double holds exactly.
\<close>

definition ints :: "rat list \<Rightarrow> bool" where
  "ints a = list_all (\<lambda>x. x \<in> \<int>) a"

definition mag :: "rat list \<Rightarrow> rat" where
  "mag a = sum_list (map abs a)"

section \<open>Reading well-formed rows\<close>

lemmas py_int_eval = py_int_def strip_def is_space_def is_digit_def decimal_def digit_val_def
  max_str_digits_def

lemma sale_amount_ok: "sale_ok sale \<Longrightarrow> sale_amount sale = Inr (amount_of sale)"
  by (cases "py_int (sale ! 2)") (auto simp: sale_ok_def sale_amount_def getitem_def amount_of_def)

lemma amounts_where_ok:
  "(\<And>s. s \<in> set sales \<Longrightarrow> sale_ok s \<and> cond s = Inr (p s)) \<Longrightarrow>
   amounts_where cond sales = Inr (map amount_of (filter p sales))"
  by (induction sales) (auto simp: sale_amount_ok)

lemma field_equals_ok: "sale_ok s \<Longrightarrow> i < 4 \<Longrightarrow> field_equals i key s = Inr (s ! i = key)"
  by (simp add: field_equals_def getitem_def sale_ok_def)

section \<open>Total sales: the sum over the whole log\<close>

lemma total_ok:
  "(\<forall>s\<in>set sales. sale_ok s) \<Longrightarrow>
   analyze_total_sales_amount sales = Inr (sum_list (map amount_of sales))"
  using amounts_where_ok [of sales "\<lambda>s. Inr True" "\<lambda>s. True"]
  by (simp add: analyze_total_sales_amount_def)

text \<open>
  Claim C5. The total is the sum of the amounts of all the sale rows; on an empty log
  it is 0, a value and not an exception.
\<close>

theorem total_sales_is_sum:
  "analyze_total_sales_amount [] = Inr 0 \<and>
   ((\<forall>s\<in>set sales_data. sale_ok s) \<longrightarrow>
      analyze_total_sales_amount sales_data = Inr (sum_list (map amount_of sales_data)))"
  using total_ok [of sales_data] by (simp add: analyze_total_sales_amount_def)

theorem total_sales_is_sum_witness:
  "list_all sale_ok [[''1'', ''1'', ''100'', ''2024-01-05''], [''1'', ''2'', ''50'', ''2024-01-06'']] \<and>
   analyze_total_sales_amount
     [[''1'', ''1'', ''100'', ''2024-01-05''], [''1'', ''2'', ''50'', ''2024-01-06'']] = Inr 150"
proof -
  let ?S = "[[''1'', ''1'', ''100'', ''2024-01-05''], [''1'', ''2'', ''50'', ''2024-01-06'']]"
  have ok: "\<forall>s\<in>set ?S. sale_ok s"
    by (simp add: sale_ok_def py_int_eval)
  have "analyze_total_sales_amount ?S = Inr (sum_list (map amount_of ?S))"
    using total_sales_is_sum [of ?S] ok by blast
  moreover have "sum_list (map amount_of ?S) = 150"
    by (simp add: amount_of_def py_int_eval)
  ultimately show ?thesis using ok by (simp add: list_all_iff)
qed

section \<open>Sales of one branch: the matching amounts, in order\<close>

lemma monthly_ok:
  assumes "\<forall>s\<in>set sales. sale_ok s"
  shows "analyze_monthly_sales b sales =
     Inr (if \<exists>s\<in>set sales. s ! 0 = b
          then Report (map amount_of (filter (\<lambda>s. s ! 0 = b) sales)) else NoData)"
proof -
  have "amounts_where (field_equals 0 b) sales = Inr (map amount_of (filter (\<lambda>s. s ! 0 = b) sales))"
    using assms by (intro amounts_where_ok) (simp add: field_equals_ok)
  then show ?thesis
    by (auto simp: analyze_monthly_sales_def filter_empty_conv)
qed

text \<open>
  Claim C6. The sample of a branch holds the amounts of exactly the rows whose first
  field is the branch ID, over the whole log and in the order of the log; no date is
  looked at. When no row matches, the outcome is the no-data message.
\<close>

theorem branch_sales_sample:
  "(\<forall>s\<in>set sales_data. sale_ok s) \<Longrightarrow>
   analyze_monthly_sales branch_id sales_data =
     Inr (if \<exists>s\<in>set sales_data. s ! 0 = branch_id
          then Report (map amount_of (filter (\<lambda>s. s ! 0 = branch_id) sales_data))
          else NoData)"
  by (rule monthly_ok)

theorem branch_sales_sample_witness:
  "list_all sale_ok [[''1'', ''7'', ''100'', ''2024-01-05''], [''2'', ''7'', ''30'', ''2023-11-06''],
              [''1'', ''8'', ''50'', ''03/09/2022'']] \<and>
   analyze_monthly_sales ''1''
     [[''1'', ''7'', ''100'', ''2024-01-05''], [''2'', ''7'', ''30'', ''2023-11-06''],
      [''1'', ''8'', ''50'', ''03/09/2022'']] = Inr (Report [100, 50]) \<and>
   analyze_monthly_sales ''3''
     [[''1'', ''7'', ''100'', ''2024-01-05''], [''2'', ''7'', ''30'', ''2023-11-06''],
      [''1'', ''8'', ''50'', ''03/09/2022'']] = Inr NoData"
proof -
  let ?S = "[[''1'', ''7'', ''100'', ''2024-01-05''], [''2'', ''7'', ''30'', ''2023-11-06''],
             [''1'', ''8'', ''50'', ''03/09/2022'']]"
  have ok: "\<forall>s\<in>set ?S. sale_ok s"
    by (simp add: sale_ok_def py_int_eval)
  have "analyze_monthly_sales ''1'' ?S = Inr (Report [100, 50])"
    using branch_sales_sample [OF ok, of "''1''"] by (simp add: amount_of_def py_int_eval)
  moreover have "analyze_monthly_sales ''3'' ?S = Inr NoData"
    using branch_sales_sample [OF ok, of "''3''"] by simp
  ultimately show ?thesis using ok by (simp add: list_all_iff)
qed


section \<open>Price analysis: no data exactly when no sale matches\<close>

lemma price_ok:
  assumes "\<forall>s\<in>set sales. sale_ok s"
  shows "analyze_price np p sales =
     (if \<exists>s\<in>set sales. s ! 1 = p
      then (case compute_stats np (map amount_of (filter (\<lambda>s. s ! 1 = p) sales)) of
              Inl e \<Rightarrow> Inl e
            | Inr stats \<Rightarrow> Inr (Report stats))
      else Inr NoData)"
proof -
  have "amounts_where (field_equals 1 p) sales = Inr (map amount_of (filter (\<lambda>s. s ! 1 = p) sales))"
    using assms by (intro amounts_where_ok) (simp add: field_equals_ok)
  then show ?thesis
    by (auto simp: analyze_price_def filter_empty_conv)
qed

text \<open>
  Claim C8. The price analysis ends with the no-data message exactly when no row has the
  product ID as its second field, as for a product ID that does not occur; otherwise it
  goes on to the statistics that the library computes on the matching amounts.
\<close>

theorem price_no_data_iff:
  "(\<forall>s\<in>set sales_data. sale_ok s) \<Longrightarrow>
   (analyze_price np product_id sales_data = Inr NoData) = (\<forall>s\<in>set sales_data. s ! 1 \<noteq> product_id) \<and>
   analyze_price np product_id sales_data =
     (if \<exists>s\<in>set sales_data. s ! 1 = product_id
      then (case compute_stats np
                   (map amount_of (filter (\<lambda>s. s ! 1 = product_id) sales_data)) of
              Inl e \<Rightarrow> Inl e
            | Inr stats \<Rightarrow> Inr (Report stats))
      else Inr NoData)"
  by (auto simp: price_ok split: sum.splits)

theorem price_no_data_iff_witness:
  "list_all sale_ok [[''1'', ''1'', ''300'', ''01/05/2024'']] \<and>
   (\<forall>np. analyze_price np ''nonexistent'' [[''1'', ''1'', ''300'', ''01/05/2024'']] = Inr NoData) \<and>
   (\<forall>np. analyze_price np ''1'' [[''1'', ''1'', ''300'', ''01/05/2024'']] \<noteq> Inr NoData)"
proof -
  let ?S = "[[''1'', ''1'', ''300'', ''01/05/2024'']]"
  have ok: "\<forall>s\<in>set ?S. sale_ok s"
    by (simp add: sale_ok_def py_int_eval)
  have "analyze_price np ''nonexistent'' ?S = Inr NoData" for np
    using price_no_data_iff [OF ok, of np "''nonexistent''"] by simp
  moreover have "analyze_price np ''1'' ?S \<noteq> Inr NoData" for np
    using price_no_data_iff [OF ok, of np "''1''", THEN conjunct1] by simp
  ultimately show ?thesis using ok by (simp add: list_all_iff)
qed

section \<open>Rounding to double precision\<close>

text \<open>
  Rounding is monotone, it is the identity on the integers up to \<open>2 ^ 53\<close> in absolute
  value, and it commutes with the sign.
\<close>

lemma round_even_int [simp]: "round_even (of_int k) = k"
  by (simp add: round_even_def)

lemma round_even_mono: "m \<le> m' \<Longrightarrow> round_even m \<le> round_even m'"
proof -
  assume le: "m \<le> m'"
  have fl: "\<lfloor>m\<rfloor> \<le> \<lfloor>m'\<rfloor>" using le by (rule floor_mono)
  have a: "round_even m \<le> \<lfloor>m\<rfloor> + 1" and b: "\<lfloor>m'\<rfloor> \<le> round_even m'"
    by (simp_all add: round_even_def Let_def)
  show ?thesis
  proof (cases "\<lfloor>m\<rfloor> = \<lfloor>m'\<rfloor>")
    case True
    then have "m - of_int \<lfloor>m\<rfloor> \<le> m' - of_int \<lfloor>m'\<rfloor>" using le by simp
    then show ?thesis using True by (auto simp: round_even_def Let_def)
  next
    case False
    then have "\<lfloor>m\<rfloor> + 1 \<le> \<lfloor>m'\<rfloor>" using fl by simp
    then show ?thesis using a b by linarith
  qed
qed

lemma pow2_pos [simp]: "0 < (2 :: rat) powi k"
  by simp

lemma pow2_mono: "j \<le> k \<Longrightarrow> (2 :: rat) powi j \<le> 2 powi k"
  by (rule power_int_increasing) simp_all

lemma pow2_strict_mono: "j < k \<Longrightarrow> (2 :: rat) powi j < 2 powi k"
  by (rule power_int_strict_increasing) simp_all

lemma pow2_add: "(2 :: rat) powi (j + k) = 2 powi j * 2 powi k"
  by (rule power_int_add) simp

lemma pow2_diff: "(2 :: rat) powi (j - k) = 2 powi j / 2 powi k"
  by (rule power_int_diff) simp

lemma bitlen_pow2_bounds:
  assumes "0 < a"
  shows "(2 :: rat) powi (bitlen a - 1) \<le> of_int a \<and> of_int a < (2 :: rat) powi (bitlen a)"
proof -
  from bitlen_bounds [OF assms]
  have lo: "2 ^ nat (bitlen a - 1) \<le> a" and hi: "a < 2 ^ nat (bitlen a)" by simp_all
  have ge: "1 \<le> bitlen a" using assms by (simp add: bitlen_alt_def)
  have "(of_int (2 ^ nat (bitlen a - 1)) :: rat) \<le> of_int a" using lo by (simp only: of_int_le_iff)
  moreover have "(of_int a :: rat) < of_int (2 ^ nat (bitlen a))" using hi by (simp only: of_int_less_iff)
  ultimately show ?thesis using ge by (simp add: power_int_def)
qed

lemma ilog2_bounds:
  assumes "q \<noteq> 0"
  shows "2 powi (ilog2 q) \<le> \<bar>q\<bar> \<and> \<bar>q\<bar> < 2 powi (ilog2 q + 1)"
proof -
  obtain a b where ab: "quotient_of \<bar>q\<bar> = (a, b)" by (cases "quotient_of \<bar>q\<bar>")
  then have b: "0 < b" and q: "\<bar>q\<bar> = of_int a / of_int b"
    by (simp_all add: quotient_of_denom_pos quotient_of_div)
  have a: "0 < a"
  proof -
    have "0 < \<bar>q\<bar>" using assms by simp
    then have "0 < (of_int a :: rat) / of_int b" using q by simp
    then show ?thesis using b by (simp add: zero_less_divide_iff)
  qed
  define d where "d = bitlen a - bitlen b"
  note A = bitlen_pow2_bounds [OF a] and B = bitlen_pow2_bounds [OF b]
  have bpos: "0 < (of_int b :: rat)" using b by simp
  have up: "\<bar>q\<bar> < 2 powi (d + 1)"
  proof -
    have "of_int a < (2 :: rat) powi (bitlen a)" using A by simp
    also have "\<dots> = 2 powi (d + 1) * 2 powi (bitlen b - 1)"
      by (simp add: d_def pow2_add [symmetric])
    also have "\<dots> \<le> 2 powi (d + 1) * of_int b"
      using B by (intro mult_left_mono) simp_all
    finally show ?thesis using bpos by (simp add: q pos_divide_less_eq)
  qed
  have low: "2 powi (d - 1) \<le> \<bar>q\<bar>"
  proof -
    have "2 powi (d - 1) * of_int b \<le> 2 powi (d - 1) * (2 :: rat) powi (bitlen b)"
      using B by (intro mult_left_mono) simp_all
    also have "\<dots> = 2 powi (bitlen a - 1)"
      by (simp add: d_def pow2_add [symmetric])
    also have "\<dots> \<le> of_int a" using A by simp
    finally show ?thesis using bpos by (simp add: q pos_le_divide_eq)
  qed
  have e: "ilog2 q = (if 2 powi d \<le> \<bar>q\<bar> then d else d - 1)"
    by (simp add: ilog2_def ab d_def Let_def)
  show ?thesis
  proof (cases "2 powi d \<le> \<bar>q\<bar>")
    case True
    then show ?thesis using up e by simp
  next
    case False
    then show ?thesis using low e by simp
  qed
qed

lemma ilog2_unique:
  assumes "2 powi e \<le> \<bar>q\<bar>" and "\<bar>q\<bar> < 2 powi (e + 1)"
  shows "ilog2 q = e"
proof -
  have "0 < \<bar>q\<bar>" using assms(1) pow2_pos [of e] by linarith
  then have q: "q \<noteq> 0" by simp
  note b = ilog2_bounds [OF q]
  have "\<not> ilog2 q < e"
  proof
    assume "ilog2 q < e"
    then have "2 powi (ilog2 q + 1) \<le> (2 :: rat) powi e" by (intro pow2_mono) simp
    then show False using b assms(1) by linarith
  qed
  moreover have "\<not> e < ilog2 q"
  proof
    assume "e < ilog2 q"
    then have "2 powi (e + 1) \<le> (2 :: rat) powi (ilog2 q)" by (intro pow2_mono) simp
    then show False using b assms(2) by linarith
  qed
  ultimately show ?thesis by simp
qed

lemma ilog2_mono:
  assumes "p \<noteq> 0" and "\<bar>p\<bar> \<le> \<bar>q\<bar>"
  shows "ilog2 p \<le> ilog2 q"
proof (rule ccontr)
  assume "\<not> ilog2 p \<le> ilog2 q"
  then have "ilog2 q + 1 \<le> ilog2 p" by simp
  then have "2 powi (ilog2 q + 1) \<le> (2 :: rat) powi (ilog2 p)" by (rule pow2_mono)
  moreover have "q \<noteq> 0" using assms by auto
  ultimately show False using ilog2_bounds [OF assms(1)] ilog2_bounds [OF \<open>q \<noteq> 0\<close>] assms(2)
    by linarith
qed


lemma fl64_exact:
  assumes "q \<noteq> 0" and "\<bar>q\<bar> / 2 powi (ilog2 q - 52) = of_int m"
  shows "fl64 q = q"
proof -
  define u :: rat where "u = 2 powi (ilog2 q - 52)"
  have u: "0 < u" by (simp add: u_def)
  have m: "\<bar>q\<bar> = of_int m * u" using assms(2) u by (simp add: u_def [symmetric] field_simps)
  have "fl64 q = sgn q * (of_int (round_even (\<bar>q\<bar> / u)) * u)"
    using assms(1) by (simp add: fl64_def Let_def u_def)
  also have "\<bar>q\<bar> / u = of_int m" using assms(2) by (simp add: u_def)
  also have "sgn q * (of_int (round_even (of_int m)) * u) = sgn q * \<bar>q\<bar>" by (simp add: m)
  also have "\<dots> = q" by (simp add: sgn_mult_abs)
  finally show ?thesis .
qed

lemma pow2_nat: "(2 :: rat) powi (int n) = 2 ^ n"
  by simp

lemma fl64_int:
  assumes "\<bar>k\<bar> \<le> 2 ^ 53"
  shows "fl64 (of_int k) = of_int k"
proof (cases "k = 0")
  case True
  then show ?thesis by (simp add: fl64_def)
next
  case False
  define q :: rat where "q = of_int k"
  define e where "e = ilog2 q"
  have q0: "q \<noteq> 0" using False by (simp add: q_def)
  have absq: "\<bar>q\<bar> = of_int \<bar>k\<bar>" by (simp add: q_def)
  have le: "\<bar>q\<bar> \<le> 2 powi 53"
  proof -
    have "(of_int \<bar>k\<bar> :: rat) \<le> of_int (2 ^ 53)" using assms by (simp only: of_int_le_iff)
    then show ?thesis by (simp add: absq)
  qed
  note b = ilog2_bounds [OF q0, folded e_def]
  have e53: "e \<le> 53"
  proof (rule ccontr)
    assume "\<not> e \<le> 53"
    then have "(2 :: rat) powi 53 < 2 powi e" by (intro pow2_strict_mono) simp
    then show False using b le by linarith
  qed
  show ?thesis
  proof (cases "e \<le> 52")
    case True
    define n where "n = nat (52 - e)"
    have "(2 :: rat) powi (e - 52) = inverse (2 powi (52 - e))"
      by (simp add: power_int_minus [symmetric])
    also have "52 - e = int n" using True by (simp add: n_def)
    finally have u: "(2 :: rat) powi (e - 52) = inverse (2 ^ n)" by simp
    have "\<bar>q\<bar> / 2 powi (e - 52) = of_int (\<bar>k\<bar> * 2 ^ n)"
      by (simp add: u absq field_simps)
    then have "\<bar>q\<bar> / 2 powi (ilog2 q - 52) = of_int (\<bar>k\<bar> * 2 ^ n)"
      by (simp only: e_def)
    from fl64_exact [OF q0 this] show ?thesis by (simp only: q_def)
  next
    case False
    then have e: "e = 53" using e53 by simp
    have "\<bar>q\<bar> = 2 powi 53" using b le by (simp add: e)
    then have "\<bar>q\<bar> / 2 powi (e - 52) = of_int (2 ^ 52)" by (simp add: e)
    then have "\<bar>q\<bar> / 2 powi (ilog2 q - 52) = of_int (2 ^ 52)"
      by (simp only: e_def)
    from fl64_exact [OF q0 this] show ?thesis by (simp only: q_def)
  qed
qed

lemma ilog2_minus [simp]: "ilog2 (- q) = ilog2 q"
  by (simp add: ilog2_def)

lemma fl64_minus: "fl64 (- q) = - fl64 q"
  by (simp add: fl64_def Let_def)

lemma fl64_range:
  assumes "0 < q"
  shows "2 powi (ilog2 q) \<le> fl64 q \<and> fl64 q \<le> 2 powi (ilog2 q + 1)"
proof -
  define e where "e = ilog2 q"
  define u :: rat where "u = 2 powi (e - 52)"
  have u: "0 < u" by (simp add: u_def)
  have q0: "q \<noteq> 0" using assms by simp
  note b = ilog2_bounds [OF q0, folded e_def]
  have f: "fl64 q = of_int (round_even (q / u)) * u"
    using assms by (simp add: fl64_def Let_def u_def e_def)
  have lo_u: "2 powi e = of_int (2 ^ 52) * u"
    by (simp add: u_def pow2_diff)
  have hi_u: "2 powi (e + 1) = of_int (2 ^ 53) * u"
    by (simp add: u_def pow2_diff pow2_add)
  have "of_int (2 ^ 52) \<le> q / u" using b assms u by (simp add: lo_u pos_le_divide_eq)
  then have "round_even (of_int (2 ^ 52)) \<le> round_even (q / u)" by (rule round_even_mono)
  then have lo: "2 ^ 52 \<le> round_even (q / u)" by (simp only: round_even_int)
  have "q / u \<le> of_int (2 ^ 53)" using b assms u by (simp add: hi_u pos_divide_le_eq)
  then have "round_even (q / u) \<le> round_even (of_int (2 ^ 53))" by (rule round_even_mono)
  then have hi: "round_even (q / u) \<le> 2 ^ 53" by (simp only: round_even_int)
  have "(of_int (2 ^ 52) :: rat) \<le> of_int (round_even (q / u))" using lo by (simp only: of_int_le_iff)
  then have "of_int (2 ^ 52) * u \<le> of_int (round_even (q / u)) * u"
    using u by (intro mult_right_mono) simp_all
  moreover have "(of_int (round_even (q / u)) :: rat) \<le> of_int (2 ^ 53)" using hi by (simp only: of_int_le_iff)
  then have "of_int (round_even (q / u)) * u \<le> of_int (2 ^ 53) * u"
    using u by (intro mult_right_mono) simp_all
  ultimately show ?thesis unfolding e_def [symmetric] f lo_u hi_u by simp
qed

lemma fl64_pos: "0 < q \<Longrightarrow> 0 < fl64 q"
  using fl64_range [of q] pow2_pos [of "ilog2 q"] by linarith

lemma fl64_mono_pos:
  assumes "0 < p" and "p \<le> q"
  shows "fl64 p \<le> fl64 q"
proof -
  have q: "0 < q" using assms by simp
  have le: "ilog2 p \<le> ilog2 q" using assms by (intro ilog2_mono) simp_all
  show ?thesis
  proof (cases "ilog2 p = ilog2 q")
    case True
    define u :: rat where "u = 2 powi (ilog2 q - 52)"
    have u: "0 < u" by (simp add: u_def)
    have "p / u \<le> q / u" using assms u by (simp add: divide_right_mono)
    then have "round_even (p / u) \<le> round_even (q / u)" by (rule round_even_mono)
    then have "(of_int (round_even (p / u)) :: rat) \<le> of_int (round_even (q / u))"
      by (simp only: of_int_le_iff)
    then have "of_int (round_even (p / u)) * u \<le> of_int (round_even (q / u)) * u"
      using u by (intro mult_right_mono) simp_all
    then show ?thesis using assms q True by (simp add: fl64_def Let_def u_def)
  next
    case False
    then have "ilog2 p + 1 \<le> ilog2 q" using le by simp
    then have "(2 :: rat) powi (ilog2 p + 1) \<le> 2 powi (ilog2 q)" by (rule pow2_mono)
    then show ?thesis using fl64_range [OF assms(1)] fl64_range [OF q] by linarith
  qed
qed

lemma fl64_zero [simp]: "fl64 0 = 0"
  by (simp add: fl64_def)

lemma fl64_mono:
  assumes "p \<le> q"
  shows "fl64 p \<le> fl64 q"
proof -
  consider "0 < p" | "p \<le> 0" "0 \<le> q" | "q < 0" using assms by linarith
  then show ?thesis
  proof cases
    case 1
    then show ?thesis using assms by (rule fl64_mono_pos)
  next
    case 2
    have "fl64 p \<le> 0"
    proof (cases "p = 0")
      case False
      then have "0 < - p" using 2 by simp
      then have "0 < fl64 (- p)" by (rule fl64_pos)
      then show ?thesis by (simp add: fl64_minus)
    qed simp
    moreover have "0 \<le> fl64 q"
    proof (cases "q = 0")
      case False
      then have "0 < q" using 2 by simp
      then have "0 < fl64 q" by (rule fl64_pos)
      then show ?thesis by simp
    qed simp
    ultimately show ?thesis by simp
  next
    case 3
    then have "0 < - q" "- q \<le> - p" using assms by simp_all
    then have "fl64 (- q) \<le> fl64 (- p)" by (rule fl64_mono_pos)
    then show ?thesis by (simp add: fl64_minus)
  qed
qed


lemma fadd_exact:
  assumes "a \<in> \<int>" and "b \<in> \<int>" and "\<bar>a + b\<bar> \<le> 2 ^ 53"
  shows "fadd a b = a + b"
proof -
  from assms(1,2) have "a + b \<in> \<int>" by simp
  then obtain k where k: "a + b = of_int k" by (auto elim: Ints_cases)
  have "(of_int \<bar>k\<bar> :: rat) \<le> of_int (2 ^ 53)" using assms(3) by (simp add: k)
  then have "\<bar>k\<bar> \<le> 2 ^ 53" by (simp only: of_int_le_iff)
  then show ?thesis by (simp add: fadd_def k fl64_int)
qed

section \<open>Sums of integers below \<open>2 ^ 53\<close>\<close>

text \<open>
  On a list of integers whose absolute values sum to at most \<open>2 ^ 53\<close> no addition of
  the pairwise, buffered summation rounds: the library's sum is the exact sum, and the
  mean is the exact sum divided by the count, rounded once.
\<close>

lemma ints_simps [simp]:
  "ints []" "ints (x # a) = (x \<in> \<int> \<and> ints a)" "ints (a @ b) = (ints a \<and> ints b)"
  by (simp_all add: ints_def)

lemma mag_simps [simp]:
  "mag [] = 0" "mag (x # a) = \<bar>x\<bar> + mag a" "mag (a @ b) = mag a + mag b"
  by (simp_all add: mag_def)

lemma mag_nonneg: "0 \<le> mag a"
  by (induction a) simp_all

lemma abs_sum_le_mag: "\<bar>sum_list a\<bar> \<le> mag a"
  by (induction a) auto

lemma ints_sum: "ints a \<Longrightarrow> sum_list a \<in> \<int>"
  by (induction a) simp_all

lemma ints_take: "ints a \<Longrightarrow> ints (take n a)"
  unfolding ints_def list_all_iff by (auto dest: in_set_takeD)

lemma ints_drop: "ints a \<Longrightarrow> ints (drop n a)"
  unfolding ints_def list_all_iff by (auto dest: in_set_dropD)

lemma mag_take_drop: "mag (take n a) + mag (drop n a) = mag a"
  using mag_simps(3) [of "take n a" "drop n a"] by simp

lemma sum_take_drop: "sum_list (take n a) + sum_list (drop n a) = sum_list (a :: rat list)"
  using sum_list_append [of "take n a" "drop n a"] by simp

lemma foldl_exact:
  "x \<in> \<int> \<Longrightarrow> ints a \<Longrightarrow> \<bar>x\<bar> + mag a \<le> 2 ^ 53 \<Longrightarrow> foldl fadd x a = x + sum_list a"
proof (induction a arbitrary: x)
  case Nil
  then show ?case by simp
next
  case (Cons y a)
  have m: "0 \<le> mag a" by (rule mag_nonneg)
  have b: "\<bar>x + y\<bar> \<le> 2 ^ 53" using Cons.prems(3) m by simp (linarith)?
  have e: "fadd x y = x + y" using Cons.prems(1,2) b by (intro fadd_exact) simp_all
  have "foldl fadd (x + y) a = (x + y) + sum_list a"
    using Cons.prems by (intro Cons.IH) (simp_all, (linarith)?)
  then show ?case by (simp add: e)
qed

lemma map2_exact:
  "length r = length t \<Longrightarrow> ints r \<Longrightarrow> ints t \<Longrightarrow> mag r + mag t \<le> 2 ^ 53 \<Longrightarrow>
   map2 fadd r t = map2 (+) r t"
proof (induction r t rule: list_induct2)
  case Nil
  then show ?case by simp
next
  case (Cons x r y t)
  have m: "0 \<le> mag r" "0 \<le> mag t" by (rule mag_nonneg)+
  have b: "\<bar>x + y\<bar> \<le> 2 ^ 53" using Cons.prems(3) m by simp (linarith)?
  have e: "fadd x y = x + y" using Cons.prems(1,2) b by (intro fadd_exact) simp_all
  have "map2 fadd r t = map2 (+) r t"
    using Cons.prems m by (intro Cons.IH) (simp_all, (linarith)?)
  then show ?case by (simp add: e)
qed

lemma map2_plus:
  "length r = length t \<Longrightarrow> ints r \<Longrightarrow> ints t \<Longrightarrow>
   ints (map2 (+) r t) \<and> mag (map2 (+) r t) \<le> mag r + mag t \<and>
   sum_list (map2 (+) r t) = sum_list r + sum_list t"
proof (induction r t rule: list_induct2)
  case Nil
  then show ?case by simp
next
  case (Cons x r y t)
  then have "ints (map2 (+) r t) \<and> mag (map2 (+) r t) \<le> mag r + mag t \<and>
   sum_list (map2 (+) r t) = sum_list r + sum_list t" by simp
  then show ?case using Cons.prems by simp (linarith)?
qed

lemma add8_exact:
  "length r = 8 \<Longrightarrow> ints r \<Longrightarrow> ints xs \<Longrightarrow> mag r + mag xs \<le> 2 ^ 53 \<Longrightarrow>
   add8 r xs = (r', rest) \<Longrightarrow>
   length r' = 8 \<and> ints r' \<and> ints rest \<and> mag r' + mag rest \<le> 2 ^ 53 \<and>
   sum_list r' + sum_list rest = sum_list r + sum_list xs"
proof (induction r xs rule: add8.induct)
  case (1 r xs)
  show ?case
  proof (cases "8 \<le> length xs")
    case False
    then have "add8 r xs = (r, xs)" by (subst add8.simps) simp
    then show ?thesis using "1.prems" by simp
  next
    case True
    define t where "t = take 8 xs"
    define d where "d = drop 8 xs"
    have len: "length r = length t" using True "1.prems"(1) by (simp add: t_def)
    have it: "ints t" and id: "ints d" using "1.prems"(3) by (simp_all add: t_def d_def ints_take ints_drop)
    have mg: "mag t + mag d = mag xs" unfolding t_def d_def by (rule mag_take_drop)
    have sm: "sum_list t + sum_list d = sum_list xs" unfolding t_def d_def by (rule sum_take_drop)
    have md: "0 \<le> mag d" by (rule mag_nonneg)
    have ex: "map2 fadd r t = map2 (+) r t"
      using len "1.prems"(2) it "1.prems"(4) mg md by (intro map2_exact) (simp_all, (linarith)?)
    note p = map2_plus [OF len "1.prems"(2) it]
    have ex': "map2 fadd r (take 8 xs) = map2 (+) r t" using ex by (simp only: t_def)
    have step: "add8 r xs = add8 (map2 (+) r t) d"
      using True by (subst add8.simps) (simp only: ex' d_def if_True)
    have "length r' = 8 \<and> ints r' \<and> ints rest \<and> mag r' + mag rest \<le> 2 ^ 53 \<and>
      sum_list r' + sum_list rest = sum_list (map2 fadd r (take 8 xs)) + sum_list (drop 8 xs)"
    proof (rule "1.IH" [OF True])
      show "length (map2 fadd r (take 8 xs)) = 8"
        unfolding ex' using len "1.prems"(1) by simp
      show "ints (map2 fadd r (take 8 xs))" unfolding ex' using p by simp
      show "ints (drop 8 xs)" using id by (simp only: d_def)
      have "mag (map2 (+) r t) + mag d \<le> 2 ^ 53"
        using p mg "1.prems"(4) by linarith
      then show "mag (map2 fadd r (take 8 xs)) + mag (drop 8 xs) \<le> 2 ^ 53"
        unfolding ex' d_def .
      show "add8 (map2 fadd r (take 8 xs)) (drop 8 xs) = (r', rest)"
        unfolding ex' using "1.prems"(5) step by (simp only: d_def)
    qed
    then have "length r' = 8 \<and> ints r' \<and> ints rest \<and> mag r' + mag rest \<le> 2 ^ 53 \<and>
      sum_list r' + sum_list rest = sum_list (map2 (+) r t) + sum_list d"
      unfolding ex' d_def .
    then show ?thesis using p sm by linarith
  qed
qed

lemma length8:
  "length (r :: rat list) = 8 \<Longrightarrow> \<exists>r0 r1 r2 r3 r4 r5 r6 r7. r = [r0, r1, r2, r3, r4, r5, r6, r7]"
  by (auto simp: eval_nat_numeral length_Suc_conv)

lemma fadd_exact_le:
  assumes "a \<in> \<int>" and "b \<in> \<int>" and "\<bar>a\<bar> \<le> A" and "\<bar>b\<bar> \<le> B" and "A + B \<le> 2 ^ 53"
  shows "fadd a b = a + b \<and> a + b \<in> \<int> \<and> \<bar>a + b\<bar> \<le> A + B"
proof -
  have "\<bar>a + b\<bar> \<le> \<bar>a\<bar> + \<bar>b\<bar>" by (rule abs_triangle_ineq)
  then have le: "\<bar>a + b\<bar> \<le> A + B" using assms(3,4) by linarith
  then have "\<bar>a + b\<bar> \<le> 2 ^ 53" using assms(5) by (rule order_trans)
  then show ?thesis using assms(1,2) le by (simp add: fadd_exact)
qed

lemma tree8_exact:
  assumes "length r = 8" and "ints r" and "mag r \<le> 2 ^ 53"
  shows "tree8 r = sum_list r"
proof -
  from length8 [OF assms(1)] obtain r0 r1 r2 r3 r4 r5 r6 r7
    where r: "r = [r0, r1, r2, r3, r4, r5, r6, r7]" by blast
  define a0 a1 a2 a3 a4 a5 a6 a7
    where a: "a0 = \<bar>r0\<bar>" "a1 = \<bar>r1\<bar>" "a2 = \<bar>r2\<bar>" "a3 = \<bar>r3\<bar>"
      "a4 = \<bar>r4\<bar>" "a5 = \<bar>r5\<bar>" "a6 = \<bar>r6\<bar>" "a7 = \<bar>r7\<bar>"
  have i: "r0 \<in> \<int>" "r1 \<in> \<int>" "r2 \<in> \<int>" "r3 \<in> \<int>" "r4 \<in> \<int>" "r5 \<in> \<int>" "r6 \<in> \<int>" "r7 \<in> \<int>"
    using assms(2) by (simp_all add: r)
  have b: "\<bar>r0\<bar> \<le> a0" "\<bar>r1\<bar> \<le> a1" "\<bar>r2\<bar> \<le> a2" "\<bar>r3\<bar> \<le> a3"
    "\<bar>r4\<bar> \<le> a4" "\<bar>r5\<bar> \<le> a5" "\<bar>r6\<bar> \<le> a6" "\<bar>r7\<bar> \<le> a7"
    by (simp_all add: a)
  have n: "0 \<le> a0" "0 \<le> a1" "0 \<le> a2" "0 \<le> a3" "0 \<le> a4" "0 \<le> a5" "0 \<le> a6" "0 \<le> a7"
    by (simp_all add: a)
  have m: "a0 + (a1 + (a2 + (a3 + (a4 + (a5 + (a6 + a7)))))) \<le> 2 ^ 53"
    using assms(3) by (simp add: r a)
  have s01: "fadd r0 r1 = r0 + r1 \<and> r0 + r1 \<in> \<int> \<and> \<bar>r0 + r1\<bar> \<le> a0 + a1"
    by (rule fadd_exact_le [OF i(1) i(2) b(1) b(2)]) (use n m in linarith)
  have s23: "fadd r2 r3 = r2 + r3 \<and> r2 + r3 \<in> \<int> \<and> \<bar>r2 + r3\<bar> \<le> a2 + a3"
    by (rule fadd_exact_le [OF i(3) i(4) b(3) b(4)]) (use n m in linarith)
  have s45: "fadd r4 r5 = r4 + r5 \<and> r4 + r5 \<in> \<int> \<and> \<bar>r4 + r5\<bar> \<le> a4 + a5"
    by (rule fadd_exact_le [OF i(5) i(6) b(5) b(6)]) (use n m in linarith)
  have s67: "fadd r6 r7 = r6 + r7 \<and> r6 + r7 \<in> \<int> \<and> \<bar>r6 + r7\<bar> \<le> a6 + a7"
    by (rule fadd_exact_le [OF i(7) i(8) b(7) b(8)]) (use n m in linarith)
  have s03: "fadd (r0 + r1) (r2 + r3) = r0 + r1 + (r2 + r3) \<and> r0 + r1 + (r2 + r3) \<in> \<int> \<and>
      \<bar>r0 + r1 + (r2 + r3)\<bar> \<le> a0 + a1 + (a2 + a3)"
    by (rule fadd_exact_le [OF s01 [THEN conjunct2, THEN conjunct1] s23 [THEN conjunct2, THEN conjunct1]
          s01 [THEN conjunct2, THEN conjunct2] s23 [THEN conjunct2, THEN conjunct2]])
       (use n m in linarith)
  have s47: "fadd (r4 + r5) (r6 + r7) = r4 + r5 + (r6 + r7) \<and> r4 + r5 + (r6 + r7) \<in> \<int> \<and>
      \<bar>r4 + r5 + (r6 + r7)\<bar> \<le> a4 + a5 + (a6 + a7)"
    by (rule fadd_exact_le [OF s45 [THEN conjunct2, THEN conjunct1] s67 [THEN conjunct2, THEN conjunct1]
          s45 [THEN conjunct2, THEN conjunct2] s67 [THEN conjunct2, THEN conjunct2]])
       (use n m in linarith)
  have s07: "fadd (r0 + r1 + (r2 + r3)) (r4 + r5 + (r6 + r7)) =
      r0 + r1 + (r2 + r3) + (r4 + r5 + (r6 + r7)) \<and>
      r0 + r1 + (r2 + r3) + (r4 + r5 + (r6 + r7)) \<in> \<int> \<and>
      \<bar>r0 + r1 + (r2 + r3) + (r4 + r5 + (r6 + r7))\<bar> \<le> a0 + a1 + (a2 + a3) + (a4 + a5 + (a6 + a7))"
    by (rule fadd_exact_le [OF s03 [THEN conjunct2, THEN conjunct1] s47 [THEN conjunct2, THEN conjunct1]
          s03 [THEN conjunct2, THEN conjunct2] s47 [THEN conjunct2, THEN conjunct2]])
       (use n m in linarith)
  have "tree8 r = r0 + r1 + (r2 + r3) + (r4 + r5 + (r6 + r7))"
    by (simp only: r tree8.simps s01 [THEN conjunct1] s23 [THEN conjunct1] s45 [THEN conjunct1]
        s67 [THEN conjunct1] s03 [THEN conjunct1] s47 [THEN conjunct1] s07 [THEN conjunct1])
  then show ?thesis by (simp add: r)
qed


lemma mag_take_le: "mag (take n a) \<le> mag a"
  using mag_take_drop [of n a] mag_nonneg [of "drop n a"] by linarith

lemma mag_drop_le: "mag (drop n a) \<le> mag a"
  using mag_take_drop [of n a] mag_nonneg [of "take n a"] by linarith

lemma block_sum_exact:
  assumes "8 \<le> length a" and "ints a" and "mag a \<le> 2 ^ 53"
  shows "block_sum a = sum_list a"
proof -
  obtain r rest where ar: "add8 (take 8 a) (drop 8 a) = (r, rest)"
    by (cases "add8 (take 8 a) (drop 8 a)")
  have "length r = 8 \<and> ints r \<and> ints rest \<and> mag r + mag rest \<le> 2 ^ 53 \<and>
     sum_list r + sum_list rest = sum_list (take 8 a) + sum_list (drop 8 a)"
  proof (rule add8_exact [OF _ _ _ _ ar])
    show "length (take 8 a) = 8" using assms(1) by simp
    show "ints (take 8 a)" using assms(2) by (rule ints_take)
    show "ints (drop 8 a)" using assms(2) by (rule ints_drop)
    show "mag (take 8 a) + mag (drop 8 a) \<le> 2 ^ 53" using assms(3) by (simp only: mag_take_drop)
  qed
  then have len: "length r = 8" and ir: "ints r" and irest: "ints rest"
    and m: "mag r + mag rest \<le> 2 ^ 53" and sm: "sum_list r + sum_list rest = sum_list a"
    by (simp_all only: sum_take_drop)
  have mr: "mag r \<le> 2 ^ 53" using m mag_nonneg [of rest] by linarith
  have t: "tree8 r = sum_list r" using len ir mr by (rule tree8_exact)
  have "foldl fadd (sum_list r) rest = sum_list r + sum_list rest"
  proof (rule foldl_exact)
    show "sum_list r \<in> \<int>" using ir by (rule ints_sum)
    show "ints rest" by (rule irest)
    show "\<bar>sum_list r\<bar> + mag rest \<le> 2 ^ 53" using abs_sum_le_mag [of r] m by linarith
  qed
  then show ?thesis by (simp only: block_sum_def ar prod.case t sm)
qed

lemma pairwise_sum_exact:
  "ints a \<Longrightarrow> mag a \<le> 2 ^ 53 \<Longrightarrow> pairwise_sum a = sum_list a"
proof (induction a rule: pairwise_sum.induct)
  case (1 a)
  show ?case
  proof (cases "length a < 8")
    case True
    have "foldl fadd 0 a = 0 + sum_list a"
      using "1.prems" by (intro foldl_exact) simp_all
    then show ?thesis using True by (subst pairwise_sum.simps) simp
  next
    case False
    note nl = False
    show ?thesis
    proof (cases "length a \<le> PW_BLOCKSIZE")
      case True
      have "block_sum a = sum_list a" using nl "1.prems" by (intro block_sum_exact) simp_all
      then show ?thesis using nl True by (subst pairwise_sum.simps) simp
    next
      case False
      define h where "h = half8 (length a)"
      have l: "pairwise_sum (take h a) = sum_list (take h a)"
        unfolding h_def
        using "1.prems" mag_take_le [of "half8 (length a)" a]
        by (intro "1.IH"(1) [OF nl False] ints_take) (simp_all, (linarith)?)
      have r: "pairwise_sum (drop h a) = sum_list (drop h a)"
        unfolding h_def
        using "1.prems" mag_drop_le [of "half8 (length a)" a]
        by (intro "1.IH"(2) [OF nl False] ints_drop) (simp_all, (linarith)?)
      have "fadd (sum_list (take h a)) (sum_list (drop h a)) = sum_list (take h a) + sum_list (drop h a)"
      proof (rule fadd_exact)
        show "sum_list (take h a) \<in> \<int>" using "1.prems"(1) by (intro ints_sum ints_take)
        show "sum_list (drop h a) \<in> \<int>" using "1.prems"(1) by (intro ints_sum ints_drop)
        show "\<bar>sum_list (take h a) + sum_list (drop h a)\<bar> \<le> 2 ^ 53"
          using abs_sum_le_mag [of a] "1.prems"(2) by (simp only: sum_take_drop) (linarith)?
      qed
      then have "fadd (pairwise_sum (take h a)) (pairwise_sum (drop h a)) = sum_list a"
        by (simp only: l r sum_take_drop)
      then show ?thesis using nl False by (subst pairwise_sum.simps) (simp add: h_def)
    qed
  qed
qed

lemma buffered_sum_exact:
  "acc \<in> \<int> \<Longrightarrow> ints a \<Longrightarrow> \<bar>acc\<bar> + mag a \<le> 2 ^ 53 \<Longrightarrow> buffered_sum acc a = acc + sum_list a"
proof (induction acc a rule: buffered_sum.induct)
  case (1 acc a)
  show ?case
  proof (cases "a = []")
    case True
    then show ?thesis by (subst buffered_sum.simps) simp
  next
    case False
    define t where "t = take bufsize a"
    define d where "d = drop bufsize a"
    have it: "ints t" and id: "ints d" using "1.prems"(2) by (simp_all add: t_def d_def ints_take ints_drop)
    have mg: "mag t + mag d = mag a" unfolding t_def d_def by (rule mag_take_drop)
    have sm: "sum_list t + sum_list d = sum_list a" unfolding t_def d_def by (rule sum_take_drop)
    have nt: "0 \<le> mag t" and nd: "0 \<le> mag d" by (rule mag_nonneg)+
    have na: "0 \<le> \<bar>acc\<bar>" by simp
    have st: "\<bar>sum_list t\<bar> \<le> mag t" by (rule abs_sum_le_mag)
    have pt: "pairwise_sum t = sum_list t"
      using it by (rule pairwise_sum_exact) (use "1.prems"(3) mg nd na in linarith)
    have tri: "\<bar>acc + sum_list t\<bar> \<le> \<bar>acc\<bar> + \<bar>sum_list t\<bar>" by (rule abs_triangle_ineq)
    have b: "\<bar>acc + sum_list t\<bar> + mag d \<le> 2 ^ 53"
      using tri st mg "1.prems"(3) by linarith
    have b': "\<bar>acc + sum_list t\<bar> \<le> 2 ^ 53" using b nd by linarith
    have fa: "fadd acc (sum_list t) = acc + sum_list t"
      using "1.prems"(1) ints_sum [OF it] b' by (rule fadd_exact)
    have "buffered_sum (fadd acc (pairwise_sum (take bufsize a))) (drop bufsize a) =
       fadd acc (pairwise_sum (take bufsize a)) + sum_list (drop bufsize a)"
    proof (rule "1.IH" [OF False])
      show "fadd acc (pairwise_sum (take bufsize a)) \<in> \<int>"
        using "1.prems"(1) ints_sum [OF it] by (simp add: t_def [symmetric] pt fa)
      show "ints (drop bufsize a)" using id by (simp only: d_def)
      show "\<bar>fadd acc (pairwise_sum (take bufsize a))\<bar> + mag (drop bufsize a) \<le> 2 ^ 53"
        using b by (simp only: t_def [symmetric] d_def [symmetric] pt fa)
    qed
    then have "buffered_sum (fadd acc (pairwise_sum (take bufsize a))) (drop bufsize a) =
       acc + sum_list t + sum_list d"
      by (simp only: t_def [symmetric] d_def [symmetric] pt fa)
    then have "buffered_sum (fadd acc (pairwise_sum (take bufsize a))) (drop bufsize a) =
       acc + sum_list a" using sm by linarith
    then show ?thesis using False by (subst buffered_sum.simps) simp
  qed
qed

lemma abs_le_sum_abs: "x \<in> set xs \<Longrightarrow> \<bar>x\<bar> \<le> sum_list (map abs (xs :: int list))"
proof (induction xs)
  case Nil
  then show ?case by simp
next
  case (Cons y xs)
  have "0 \<le> sum_list (map abs xs)" by (rule sum_list_nonneg) auto
  then show ?case using Cons by auto
qed

lemma map_fl64_int:
  assumes "sum_list (map abs xs) \<le> 2 ^ 53"
  shows "map (\<lambda>x. fl64 (of_int x)) xs = map of_int xs"
proof (rule map_cong [OF refl])
  fix x assume "x \<in> set xs"
  then have "\<bar>x\<bar> \<le> 2 ^ 53" using abs_le_sum_abs [of x xs] assms by linarith
  then show "fl64 (of_int x) = of_int x" by (rule fl64_int)
qed

lemma ints_of_int: "ints (map of_int xs)"
  by (induction xs) simp_all

lemma mag_of_int: "mag (map of_int xs) = of_int (sum_list (map abs xs))"
  by (induction xs) simp_all

lemma sum_of_int: "sum_list (map of_int xs) = (of_int (sum_list xs) :: rat)"
  by (induction xs) simp_all

lemma mean_int64_exact:
  assumes "sum_list (map abs xs) \<le> 2 ^ 53"
  shows "mean_int64 xs = fl64 (of_int (sum_list xs) / fl64 (of_nat (length xs)))"
proof -
  have "(of_int (sum_list (map abs xs)) :: rat) \<le> of_int (2 ^ 53)"
    using assms by (simp only: of_int_le_iff)
  then have m: "\<bar>0 :: rat\<bar> + mag (map of_int xs) \<le> 2 ^ 53" by (simp add: mag_of_int)
  have "buffered_sum 0 (map of_int xs) = 0 + sum_list (map of_int xs)"
    by (rule buffered_sum_exact [OF _ ints_of_int m]) simp
  then show ?thesis
    by (simp add: mean_int64_def map_fl64_int [OF assms] sum_of_int fdiv_def)
qed

section \<open>Price statistics: between the minimum and the maximum\<close>

lemma sum_list_lower: "\<forall>x\<in>set xs. lo \<le> x \<Longrightarrow> int (length xs) * lo \<le> sum_list xs"
  by (induction xs) (auto simp: algebra_simps)

lemma sum_list_upper: "\<forall>x\<in>set xs. x \<le> hi \<Longrightarrow> sum_list xs \<le> int (length xs) * hi"
  by (induction xs) (auto simp: algebra_simps)

lemma length_le_sum_abs:
  "\<forall>x\<in>set xs. x \<noteq> 0 \<Longrightarrow> int (length xs) \<le> sum_list (map abs (xs :: int list))"
proof (induction xs)
  case Nil
  then show ?case by simp
next
  case (Cons y xs)
  then have "int (length xs) \<le> sum_list (map abs xs)" and "1 \<le> \<bar>y\<bar>" by auto
  then show ?case by simp
qed

lemma ratio_bounds:
  assumes ne: "xs \<noteq> []" and bound: "sum_list (map abs xs) \<le> 2 ^ 53"
  shows "of_int (Min (set xs)) \<le> of_int (sum_list xs) / fl64 (of_nat (length xs)) \<and>
         of_int (sum_list xs) / fl64 (of_nat (length xs)) \<le> of_int (Max (set xs))"
proof -
  define lo where "lo = Min (set xs)"
  define hi where "hi = Max (set xs)"
  define S where "S = sum_list xs"
  define n where "n = length xs"
  define n' where "n' = fl64 (of_nat n)"
  have n0: "0 < n" using ne by (simp add: n_def)
  have lo: "\<forall>x\<in>set xs. lo \<le> x" and hi: "\<forall>x\<in>set xs. x \<le> hi" by (simp_all add: lo_def hi_def)
  have lS: "int n * lo \<le> S" unfolding n_def S_def using lo by (rule sum_list_lower)
  have Sh: "S \<le> int n * hi" unfolding n_def S_def using hi by (rule sum_list_upper)
  have "of_int lo \<le> of_int S / n' \<and> of_int S / n' \<le> of_int hi"
  proof (cases "int n \<le> 2 ^ 53")
    case True
    then have "\<bar>int n\<bar> \<le> 2 ^ 53" by simp
    then have "fl64 (of_int (int n)) = of_int (int n)" by (rule fl64_int)
    then have n': "n' = of_nat n" by (simp add: n'_def)
    have pos: "(0 :: rat) < of_nat n" using n0 by simp
    have "(of_int (int n * lo) :: rat) \<le> of_int S" using lS by (simp only: of_int_le_iff)
    then have a: "of_int lo * of_nat n \<le> (of_int S :: rat)" by (simp add: mult.commute)
    have "(of_int S :: rat) \<le> of_int (int n * hi)" using Sh by (simp only: of_int_le_iff)
    then have b: "(of_int S :: rat) \<le> of_int hi * of_nat n" by (simp add: mult.commute)
    show ?thesis using a b pos by (simp add: n' pos_le_divide_eq pos_divide_le_eq)
  next
    case False
    then have big: "2 ^ 53 < int n" by simp
    have "(of_int (2 ^ 53) :: rat) \<le> of_int (int n)" using big by (simp only: of_int_le_iff)
    then have "fl64 (of_int (2 ^ 53)) \<le> fl64 (of_int (int n))" by (rule fl64_mono)
    moreover have "fl64 (of_int (2 ^ 53)) = of_int (2 ^ 53)" by (rule fl64_int) simp
    ultimately have n': "2 ^ 53 \<le> n'" by (simp add: n'_def)
    have "(0 :: rat) < 2 ^ 53" by simp
    then have pos: "0 < n'" using n' by linarith
    have "\<not> (\<forall>x\<in>set xs. x \<noteq> 0)"
    proof
      assume "\<forall>x\<in>set xs. x \<noteq> 0"
      then have "int (length xs) \<le> sum_list (map abs xs)" by (rule length_le_sum_abs)
      then show False using bound big by (simp add: n_def)
    qed
    then have z: "0 \<in> set xs" by auto
    then have lo0: "lo \<le> 0" and hi0: "0 \<le> hi" using lo hi by auto
    have "\<bar>S\<bar> \<le> sum_list (map abs xs)" unfolding S_def by (rule sum_list_abs)
    then have "\<bar>S\<bar> \<le> 2 ^ 53" using bound by linarith
    then have "(of_int \<bar>S\<bar> :: rat) \<le> of_int (2 ^ 53)" by (simp only: of_int_le_iff)
    then have aS: "\<bar>of_int S :: rat\<bar> \<le> n'" using n' by simp
    show ?thesis
    proof (cases "0 \<le> S")
      case True
      have up: "of_int S / n' \<le> of_int hi"
      proof (cases "S = 0")
        case True
        then show ?thesis using hi0 by simp
      next
        case False
        then have "0 < S" using True by simp
        then have "\<not> (\<forall>x\<in>set xs. x \<le> 0)"
          using sum_list_nonpos [of xs] by (auto simp: S_def)
        then obtain x where "x \<in> set xs" "0 < x" by auto
        then have "1 \<le> hi" using hi by fastforce
        then have "(1 :: rat) \<le> of_int hi" by simp
        moreover have "of_int S / n' \<le> 1" using aS pos True by (simp add: pos_divide_le_eq)
        ultimately show ?thesis by linarith
      qed
      have "(0 :: rat) \<le> of_int S / n'" using True pos by simp
      moreover have "(of_int lo :: rat) \<le> 0" using lo0 by simp
      ultimately show ?thesis using up by linarith
    next
      case False
      then have neg: "S < 0" by simp
      then have "\<not> (\<forall>x\<in>set xs. 0 \<le> x)"
        using sum_list_nonneg [of xs] by (auto simp: S_def)
      then obtain x where "x \<in> set xs" "x < 0" by auto
      then have "lo \<le> - 1" using lo by fastforce
      then have "of_int lo \<le> (- 1 :: rat)" by (simp add: of_int_le_iff [of lo "- 1", where ?'a = rat, simplified])
      moreover have "- 1 \<le> of_int S / n'" using aS pos neg by (simp add: pos_le_divide_eq)
      moreover have "of_int S / n' \<le> 0" using neg pos by (simp add: divide_nonpos_pos)
      moreover have "(0 :: rat) \<le> of_int hi" using hi0 by simp
      ultimately show ?thesis by linarith
    qed
  qed
  then show ?thesis by (simp only: lo_def hi_def S_def n_def n'_def)
qed

lemma mean_int64_bounds:
  assumes ne: "xs \<noteq> []" and bound: "sum_list (map abs xs) \<le> 2 ^ 53"
  shows "of_int (Min (set xs)) \<le> mean_int64 xs \<and> mean_int64 xs \<le> of_int (Max (set xs))"
proof -
  have "Min (set xs) \<in> set xs" using ne by (intro Min_in) simp_all
  then have "\<bar>Min (set xs)\<bar> \<le> 2 ^ 53" using abs_le_sum_abs [of _ xs] bound by fastforce
  then have lo: "fl64 (of_int (Min (set xs))) = of_int (Min (set xs))" by (rule fl64_int)
  have "Max (set xs) \<in> set xs" using ne by (intro Max_in) simp_all
  then have "\<bar>Max (set xs)\<bar> \<le> 2 ^ 53" using abs_le_sum_abs [of _ xs] bound by fastforce
  then have hi: "fl64 (of_int (Max (set xs))) = of_int (Max (set xs))" by (rule fl64_int)
  note r = ratio_bounds [OF ne bound]
  have "fl64 (of_int (Min (set xs))) \<le> fl64 (of_int (sum_list xs) / fl64 (of_nat (length xs)))"
    using r by (intro fl64_mono) simp
  moreover have "fl64 (of_int (sum_list xs) / fl64 (of_nat (length xs))) \<le> fl64 (of_int (Max (set xs)))"
    using r by (intro fl64_mono) simp
  ultimately show ?thesis by (simp only: mean_int64_exact [OF bound] lo hi)
qed

lemma max_int64_Max: "xs \<noteq> [] \<Longrightarrow> max_int64 xs = of_int (Max (set xs))"
  by (cases xs) (auto simp: max_int64_def Max.set_eq_fold [symmetric])

lemma min_int64_Min: "xs \<noteq> [] \<Longrightarrow> min_int64 xs = of_int (Min (set xs))"
  by (cases xs) (auto simp: min_int64_def Min.set_eq_fold [symmetric])

lemma sum_abs_insort: "sum_list (map abs (insort x xs)) = \<bar>x\<bar> + sum_list (map abs (xs :: int list))"
  by (induction xs) simp_all

lemma sum_abs_sort: "sum_list (map abs (sort xs)) = sum_list (map abs (xs :: int list))"
  by (induction xs) (simp_all add: sum_abs_insort)

lemma two_le_sum_abs:
  assumes "i < j" and "j < length ys"
  shows "\<bar>ys ! i\<bar> + \<bar>ys ! j\<bar> \<le> sum_list (map abs (ys :: int list))"
proof -
  have ys: "ys = take j ys @ ys ! j # drop (Suc j) ys" using assms(2) by (rule id_take_nth_drop)
  have "ys ! i = take j ys ! i" using assms(1) by simp
  moreover have "i < length (take j ys)" using assms by simp
  ultimately have "ys ! i \<in> set (take j ys)" by (metis nth_mem)
  then have a: "\<bar>ys ! i\<bar> \<le> sum_list (map abs (take j ys))" by (rule abs_le_sum_abs)
  have b: "0 \<le> sum_list (map abs (drop (Suc j) ys))" by (rule sum_list_nonneg) auto
  have "sum_list (map abs ys) =
      sum_list (map abs (take j ys)) + (\<bar>ys ! j\<bar> + sum_list (map abs (drop (Suc j) ys)))"
    by (subst ys) (simp only: map_append sum_list_append list.map sum_list.Cons)
  then show ?thesis using a b by linarith
qed

lemma median_int64_bounds:
  assumes ne: "xs \<noteq> []" and bound: "sum_list (map abs xs) \<le> 2 ^ 53"
  shows "of_int (Min (set xs)) \<le> median_int64 xs \<and> median_int64 xs \<le> of_int (Max (set xs))"
proof -
  define part where "part = sort xs"
  define index where "index = length part div 2"
  have len: "0 < length part" using ne by (simp add: part_def)
  have set: "set part = set xs" by (simp add: part_def)
  have sm: "sum_list (map abs part) = sum_list (map abs xs)" unfolding part_def by (rule sum_abs_sort)
  have mem: "\<And>i. i < length part \<Longrightarrow> Min (set xs) \<le> part ! i \<and> part ! i \<le> Max (set xs)"
  proof -
    fix i assume "i < length part"
    then have "part ! i \<in> set xs" using set nth_mem by blast
    then show "Min (set xs) \<le> part ! i \<and> part ! i \<le> Max (set xs)" by simp
  qed
  have i1: "index < length part" using len by (simp add: index_def)
  show ?thesis
  proof (cases "length part mod 2 = 1")
    case True
    define m where "m = part ! index"
    have "m \<in> set part" unfolding m_def using i1 by (rule nth_mem)
    then have "\<bar>m\<bar> \<le> sum_list (map abs part)" by (rule abs_le_sum_abs)
    then have b: "sum_list (map abs [m]) \<le> 2 ^ 53" using sm bound by simp
    have "of_int (Min (set [m])) \<le> mean_int64 [m] \<and> mean_int64 [m] \<le> of_int (Max (set [m]))"
      by (rule mean_int64_bounds [OF _ b]) simp
    then have "mean_int64 [m] = of_int m" by simp
    moreover have "median_int64 xs = mean_int64 [m]"
      using True by (simp add: median_int64_def Let_def part_def [symmetric] index_def [symmetric] m_def)
    ultimately show ?thesis using mem [OF i1] by (simp add: m_def)
  next
    case False
    then have ev: "length part mod 2 = 0" by simp
    then have ipos: "0 < index" using len unfolding index_def by arith
    define a where "a = part ! (index - 1)"
    define b where "b = part ! index"
    have "\<bar>a\<bar> + \<bar>b\<bar> \<le> sum_list (map abs part)"
      unfolding a_def b_def using ipos i1 by (intro two_le_sum_abs) simp_all
    then have bd: "sum_list (map abs [a, b]) \<le> 2 ^ 53" using sm bound by simp
    have i0: "index - 1 < length part" using i1 by simp
    have "of_int (Min (set [a, b])) \<le> mean_int64 [a, b] \<and> mean_int64 [a, b] \<le> of_int (Max (set [a, b]))"
      by (rule mean_int64_bounds [OF _ bd]) simp
    then have "of_int (min a b) \<le> mean_int64 [a, b] \<and> mean_int64 [a, b] \<le> of_int (max a b)"
      by simp
    moreover have "Min (set xs) \<le> min a b" "max a b \<le> Max (set xs)"
      using mem [OF i1] mem [OF i0] by (simp_all add: a_def b_def)
    then have "(of_int (Min (set xs)) :: rat) \<le> of_int (min a b)"
      "(of_int (max a b) :: rat) \<le> of_int (Max (set xs))"
      by (simp_all only: of_int_le_iff)
    moreover have "median_int64 xs = mean_int64 [a, b]"
      using False by (simp add: median_int64_def Let_def part_def [symmetric] index_def [symmetric] a_def b_def)
    ultimately show ?thesis by linarith
  qed
qed

lemma fits_int64_bounded:
  assumes ne: "xs \<noteq> []" and bound: "sum_list (map abs xs) \<le> 2 ^ 53"
  shows "fits_int64 xs"
proof -
  have "\<And>x. x \<in> set xs \<Longrightarrow> - (2 ^ 63) \<le> x \<and> x < 2 ^ 63"
  proof -
    fix x assume "x \<in> set xs"
    then have "\<bar>x\<bar> \<le> 2 ^ 53" using abs_le_sum_abs [of x xs] bound by linarith
    then have "- (2 ^ 53) \<le> x" and "x \<le> 2 ^ 53" by (simp_all add: abs_le_iff)
    then show "- (2 ^ 63) \<le> x \<and> x < 2 ^ 63" by simp
  qed
  then show ?thesis using ne by (simp add: fits_int64_def list_all_iff)
qed

lemma fl64_above_2_53: "fl64 9007199254740993 = 9007199254740992"
proof -
  have e: "ilog2 9007199254740993 = 53" by (rule ilog2_unique) simp_all
  have f: "\<lfloor>9007199254740993 / 2 :: rat\<rfloor> = 4503599627370496"
    by (rule floor_unique) simp_all
  show ?thesis by (simp add: fl64_def e Let_def round_even_def f)
qed

lemma mean_int64_single: "mean_int64 [x] = fl64 (fl64 (fl64 (fl64 (of_int x))) / fl64 1)"
proof -
  have "pairwise_sum [fl64 (of_int x)] = fl64 (fl64 (of_int x))"
    by (subst pairwise_sum.simps) (simp add: fadd_def)
  then have "buffered_sum 0 [fl64 (of_int x)] = fl64 (fl64 (fl64 (of_int x)))"
    by (subst buffered_sum.simps, subst buffered_sum.simps) (simp add: bufsize_def fadd_def)
  then show ?thesis by (simp add: mean_int64_def fdiv_def)
qed

lemma fl64_11_2: "fl64 (11 / 2) = 11 / 2"
proof -
  have e: "ilog2 (11 / 2) = 2" by (rule ilog2_unique) simp_all
  have "\<bar>11 / 2 :: rat\<bar> / 2 powi (ilog2 (11 / 2) - 52) = of_int (11 * 2 ^ 49)"
    by (simp add: e power_int_minus)
  then show ?thesis by (rule fl64_exact [rotated]) simp
qed

lemma price_stats_example:
  "compute_stats (numpy64 beyond) [7, 1, 4, 10] =
     Inr \<lparr>average_price = 11 / 2, max_price = 10, min_price = 1, median_price = 11 / 2\<rparr>"
proof -
  have two: "fl64 (of_int 2) = of_int 2" and four: "fl64 (of_int 4) = of_int 4"
    by (rule fl64_int, simp)+
  have a: "mean_int64 [7, 1, 4, 10] = 11 / 2"
    using four by (subst mean_int64_exact) (simp_all add: fl64_11_2)
  have m: "mean_int64 [4, 7] = 11 / 2"
    using two by (subst mean_int64_exact) (simp_all add: fl64_11_2)
  have f: "fits_int64 [7, 1, 4, 10]" by (simp add: fits_int64_def)
  show ?thesis
    by (simp add: compute_stats_def numpy64_def f a m median_int64_def max_int64_def min_int64_def)
qed

text \<open>
  Claim C3, as amended. For a non-empty list of integers whose absolute values sum to at
  most \<open>2 ^ 53\<close> the price analysis obtains its four statistics, the minimum and the
  maximum are the least and the greatest element, and they satisfy
  min \<open>\<le>\<close> median \<open>\<le>\<close> max and min \<open>\<le>\<close> mean \<open>\<le>\<close> max. The mean and the median are the
  library's, computed in double precision; the median is the mean of the middle element
  of the sorted list, or of the two middle elements when the length is even.
\<close>

theorem stats_between_min_max:
  assumes "product_sales \<noteq> []" and "sum_list (map abs product_sales) \<le> 2 ^ 53"
  shows "\<exists>st. compute_stats (numpy64 beyond) product_sales = Inr st \<and>
     min_price st = of_int (Min (set product_sales)) \<and>
     max_price st = of_int (Max (set product_sales)) \<and>
     min_price st \<le> median_price st \<and> median_price st \<le> max_price st \<and>
     min_price st \<le> average_price st \<and> average_price st \<le> max_price st"
proof -
  have f: "fits_int64 product_sales" using assms by (rule fits_int64_bounded)
  have "compute_stats (numpy64 beyond) product_sales =
     Inr \<lparr>average_price = mean_int64 product_sales,
          max_price = of_int (Max (set product_sales)),
          min_price = of_int (Min (set product_sales)),
          median_price = median_int64 product_sales\<rparr>"
    by (simp add: compute_stats_def numpy64_def f max_int64_Max [OF assms(1)] min_int64_Min [OF assms(1)])
  then show ?thesis
    using mean_int64_bounds [OF assms] median_int64_bounds [OF assms] by simp
qed

theorem stats_between_min_max_witness:
  "[7, 1, 4, 10 :: int] \<noteq> [] \<and> sum_list (map abs [7, 1, 4, 10 :: int]) \<le> 2 ^ 53 \<and>
   (\<forall>beyond. \<exists>st. compute_stats (numpy64 beyond) [7, 1, 4, 10] = Inr st \<and>
      min_price st = 1 \<and> max_price st = 10 \<and>
      min_price st \<le> median_price st \<and> median_price st \<le> max_price st \<and>
      min_price st \<le> average_price st \<and> average_price st \<le> max_price st)"
proof -
  have ne: "[7, 1, 4, 10 :: int] \<noteq> []" by simp
  have b: "sum_list (map abs [7, 1, 4, 10 :: int]) \<le> 2 ^ 53" by simp
  have lo: "Min (set [7, 1, 4, 10 :: int]) = 1" and hi: "Max (set [7, 1, 4, 10 :: int]) = 10"
    by simp_all
  show ?thesis using stats_between_min_max [OF ne b] ne b unfolding lo hi by simp
qed

text \<open>
  Without the bound the statistics can leave the interval. The single amount
  \<open>2 ^ 53 + 1 = 9007199254740993\<close> is not a double: converted for the mean it becomes
  \<open>9007199254740992\<close>, so the mean and the median are below the minimum, which the
  library takes exactly from the integers.
\<close>

theorem mean_below_min:
  "\<forall>beyond. compute_stats (numpy64 beyond) [9007199254740993] =
     Inr \<lparr>average_price = 9007199254740992, max_price = 9007199254740993,
          min_price = 9007199254740993, median_price = 9007199254740992\<rparr>"
proof -
  have k: "fl64 (of_int 9007199254740992) = of_int 9007199254740992" by (rule fl64_int) simp
  have one: "fl64 (of_int 1) = of_int 1" by (rule fl64_int) simp
  have m: "mean_int64 [9007199254740993] = 9007199254740992"
    using k one by (simp add: mean_int64_single fl64_above_2_53)
  have f: "fits_int64 [9007199254740993]" by (simp add: fits_int64_def)
  show ?thesis
    by (simp add: compute_stats_def numpy64_def f m median_int64_def max_int64_def min_int64_def)
qed

section \<open>All branches: an empty branch table\<close>

text \<open>
  Claim C10. With no registered branch the summary over all branches never returns: it
  raises whatever the sales are; with no sales the unpacking of the empty summary fails,
  and with a first sale that has a branch ID the lookup of that ID raises \<^verbatim>\<open>KeyError\<close>.
\<close>

theorem no_branches_always_raises:
  "isl (analyze_all_branches_monthly_sales sales_data []) \<and>
   analyze_all_branches_monthly_sales [] [] = Inl UnpackValueError \<and>
   analyze_all_branches_monthly_sales ((branch_id # rest) # sales) [] = Inl (KeyError branch_id)"
  by (cases sales_data)
     (auto simp: analyze_all_branches_monthly_sales_def unzip_items_def getitem_def dict_get_def
           split: sum.splits)


section \<open>All branches: the totals per registered branch\<close>

lemma keys_dict_set: "fst ` set (dict_set d k v) = insert k (fst ` set d)"
  by (induction d k v rule: dict_set.induct) auto

lemma distinct_dict_set: "distinct (map fst d) \<Longrightarrow> distinct (map fst (dict_set d k v))"
proof (induction d k v rule: dict_set.induct)
  case (1 k v)
  then show ?case by simp
next
  case (2 k' v' d k v)
  have "fst ` set (dict_set d k v) = insert k (fst ` set d)" by (rule keys_dict_set)
  with 2 show ?case by auto
qed

lemma zero_dict_set: "\<forall>x\<in>set d. snd x = 0 \<Longrightarrow> \<forall>x\<in>set (dict_set d k 0). snd x = 0"
  by (induction d k "0::int" rule: dict_set.induct) auto

lemma init_summary_ok:
  "\<forall>b\<in>set branches. b \<noteq> [] \<Longrightarrow> distinct (map fst d) \<Longrightarrow> \<forall>x\<in>set d. snd x = 0 \<Longrightarrow>
   \<exists>d'. init_summary d branches = Inr d' \<and> distinct (map fst d') \<and>
        fst ` set d' = fst ` set d \<union> branch_ids branches \<and> (\<forall>x\<in>set d'. snd x = 0)"
proof (induction branches arbitrary: d)
  case Nil
  then show ?case by (simp add: branch_ids_def)
next
  case (Cons b bs)
  let ?d = "dict_set d (b ! 0) 0"
  have g: "getitem b 0 = Inr (b ! 0)" using Cons.prems(1) by (simp add: getitem_def)
  have "\<exists>d'. init_summary ?d bs = Inr d' \<and> distinct (map fst d') \<and>
        fst ` set d' = fst ` set ?d \<union> branch_ids bs \<and> (\<forall>x\<in>set d'. snd x = 0)"
    using Cons.prems by (intro Cons.IH) (simp_all add: distinct_dict_set zero_dict_set)
  then show ?case using g by (auto simp: keys_dict_set branch_ids_def)
qed

lemma dict_set_present:
  "distinct (map fst d) \<Longrightarrow> map_of d k = Some old \<Longrightarrow>
   dict_set d k (old + n) = map (\<lambda>(k', v). (k', if k' = k then v + n else v)) d"
proof (induction d)
  case Nil
  then show ?case by simp
next
  case (Cons p d)
  obtain k' v' where p: "p = (k', v')" by (cases p)
  show ?case
  proof (cases "k' = k")
    case True
    then have "k \<notin> fst ` set d" using Cons.prems(1) p by auto
    then have "map (\<lambda>(k', v). (k', if k' = k then v + n else v)) d = d"
      by (induction d) auto
    then show ?thesis using True p Cons.prems by simp
  next
    case False
    then show ?thesis using p Cons by simp
  qed
qed

lemma branch_total_Cons:
  "branch_total (s # sales) k = (if s ! 0 = k then amount_of s else 0) + branch_total sales k"
  by (simp add: branch_total_def)

lemma add_sales_ok:
  "distinct (map fst d) \<Longrightarrow> \<forall>s\<in>set sales. sale_ok s \<Longrightarrow>
   add_sales d sales =
     (case find (\<lambda>s. s ! 0 \<notin> fst ` set d) sales of
        Some s \<Rightarrow> Inl (KeyError (s ! 0))
      | None \<Rightarrow> Inr (map (\<lambda>(k, v). (k, v + branch_total sales k)) d))"
proof (induction sales arbitrary: d)
  case Nil
  then show ?case by (simp add: branch_total_def)
next
  case (Cons s sales)
  have ok: "sale_ok s" using Cons.prems(2) by simp
  have g: "getitem s 0 = Inr (s ! 0)" using ok by (auto simp: getitem_def sale_ok_def)
  show ?case
  proof (cases "s ! 0 \<in> fst ` set d")
    case False
    then have "map_of d (s ! 0) = None" by (simp add: map_of_eq_None_iff)
    then show ?thesis using False g by (simp add: dict_get_def)
  next
    case True
    then obtain old where old: "map_of d (s ! 0) = Some old"
      by (metis map_of_eq_None_iff not_Some_eq)
    let ?d = "dict_set d (s ! 0) (old + amount_of s)"
    have d': "?d = map (\<lambda>(k', v). (k', if k' = s ! 0 then v + amount_of s else v)) d"
      using Cons.prems(1) old by (rule dict_set_present)
    have keys: "fst ` set ?d = fst ` set d" using True by (auto simp: keys_dict_set)
    have "add_sales ?d sales =
      (case find (\<lambda>s. s ! 0 \<notin> fst ` set ?d) sales of
        Some s \<Rightarrow> Inl (KeyError (s ! 0))
      | None \<Rightarrow> Inr (map (\<lambda>(k, v). (k, v + branch_total sales k)) ?d))"
      using Cons.prems by (intro Cons.IH) (simp_all add: distinct_dict_set)
    moreover have "map (\<lambda>(k, v). (k, v + branch_total sales k)) ?d
        = map (\<lambda>(k, v). (k, v + branch_total (s # sales) k)) d"
      unfolding d' by (auto simp: branch_total_Cons)
    ultimately show ?thesis
      using True g old ok by (simp add: dict_get_def sale_amount_ok keys split: option.split)
  qed
qed

lemmas branches_eval = analyze_all_branches_monthly_sales_def unzip_items_def getitem_def
  dict_get_def sale_amount_def py_int_eval

text \<open>
  Claim C1, as amended. With at least one registered branch and well-formed rows: when
  every sale belongs to a registered branch, the summary has exactly the registered
  branch IDs as its keys, each once, and the value of a key is the sum of the amounts of
  the sales of that branch (0 when it has none). When some sale belongs to a branch that
  is not registered, the sale is not dropped: the lookup of its branch ID raises
  \<^verbatim>\<open>KeyError\<close> at the first such sale and no summary is produced.
\<close>

theorem all_branches_summary:
  assumes "branch_data \<noteq> []" and "\<forall>b\<in>set branch_data. b \<noteq> []"
    and "\<forall>s\<in>set sales_data. sale_ok s"
  shows "case find (\<lambda>s. s ! 0 \<notin> branch_ids branch_data) sales_data of
           Some s \<Rightarrow>
             analyze_all_branches_monthly_sales sales_data branch_data = Inl (KeyError (s ! 0))
         | None \<Rightarrow>
             (\<exists>keys. analyze_all_branches_monthly_sales sales_data branch_data
                        = Inr (keys, map (branch_total sales_data) keys) \<and>
                      distinct keys \<and> set keys = branch_ids branch_data)"
proof -
  obtain d where d: "init_summary [] branch_data = Inr d" "distinct (map fst d)"
      "fst ` set d = branch_ids branch_data" "\<forall>x\<in>set d. snd x = 0"
    using init_summary_ok [of branch_data "[]"] assms(2) by auto
  have ne: "d \<noteq> []" using d(3) assms(1) by (auto simp: branch_ids_def)
  have add: "add_sales d sales_data =
     (case find (\<lambda>s. s ! 0 \<notin> branch_ids branch_data) sales_data of
        Some s \<Rightarrow> Inl (KeyError (s ! 0))
      | None \<Rightarrow> Inr (map (\<lambda>(k, v). (k, v + branch_total sales_data k)) d))"
    using add_sales_ok [OF d(2) assms(3)] by (simp add: d(3))
  have vals: "map snd (map (\<lambda>(k, v). (k, v + branch_total sales_data k)) d)
      = map (branch_total sales_data) (map fst d)"
    using d(4) by (induction d) auto
  have keys: "map fst (map (\<lambda>(k, v). (k, v + branch_total sales_data k)) d) = map fst d"
    by (induction d) auto
  show ?thesis
  proof (cases "find (\<lambda>s. s ! 0 \<notin> branch_ids branch_data) sales_data")
    case None
    then have "analyze_all_branches_monthly_sales sales_data branch_data
        = Inr (map fst d, map (branch_total sales_data) (map fst d))"
      using d(1) add ne vals keys
      by (simp add: analyze_all_branches_monthly_sales_def unzip_items_def)
    then show ?thesis using None d(2) d(3) by auto
  next
    case (Some s)
    then show ?thesis using d(1) add
      by (simp add: analyze_all_branches_monthly_sales_def)
  qed
qed

theorem all_branches_summary_witness:
  "[[''1'', ''A'', ''X'']] \<noteq> [] \<and> list_all (\<lambda>b. b \<noteq> []) [[''1'', ''A'', ''X'']] \<and>
   list_all sale_ok [[''1'', ''1'', ''100'', ''2024-01-05''], [''1'', ''2'', ''50'', ''2024-01-06'']] \<and>
   (\<exists>keys. analyze_all_branches_monthly_sales
              [[''1'', ''1'', ''100'', ''2024-01-05''], [''1'', ''2'', ''50'', ''2024-01-06'']]
              [[''1'', ''A'', ''X'']]
            = Inr (keys, map (branch_total
                [[''1'', ''1'', ''100'', ''2024-01-05''], [''1'', ''2'', ''50'', ''2024-01-06'']]) keys) \<and>
          distinct keys \<and> set keys = branch_ids [[''1'', ''A'', ''X'']]) \<and>
   analyze_all_branches_monthly_sales
     [[''1'', ''1'', ''100'', ''2024-01-05''], [''1'', ''2'', ''50'', ''2024-01-06'']]
     [[''1'', ''A'', ''X'']] = Inr ([''1''], [150]) \<and>
   analyze_all_branches_monthly_sales
     [[''1'', ''1'', ''100'', ''2024-01-05''], [''3'', ''2'', ''50'', ''2024-01-06'']]
     [[''1'', ''A'', ''X'']] = Inl (KeyError ''3'')"
proof -
  let ?B = "[[''1'', ''A'', ''X'']]"
  let ?S = "[[''1'', ''1'', ''100'', ''2024-01-05''], [''1'', ''2'', ''50'', ''2024-01-06'']]"
  let ?S' = "[[''1'', ''1'', ''100'', ''2024-01-05''], [''3'', ''2'', ''50'', ''2024-01-06'']]"
  have b1: "?B \<noteq> []" and b2: "\<forall>b\<in>set ?B. b \<noteq> []" by simp_all
  have ok: "\<forall>s\<in>set ?S. sale_ok s" and ok': "\<forall>s\<in>set ?S'. sale_ok s"
    by (simp_all add: sale_ok_def py_int_eval)
  have f: "find (\<lambda>s. s ! 0 \<notin> branch_ids ?B) ?S = None"
    and f': "find (\<lambda>s. s ! 0 \<notin> branch_ids ?B) ?S' = Some [''3'', ''2'', ''50'', ''2024-01-06'']"
    by (simp_all add: branch_ids_def)
  have ex: "\<exists>keys. analyze_all_branches_monthly_sales ?S ?B = Inr (keys, map (branch_total ?S) keys) \<and>
          distinct keys \<and> set keys = branch_ids ?B"
    using all_branches_summary [OF b1 b2 ok] unfolding f by simp
  have err: "analyze_all_branches_monthly_sales ?S' ?B = Inl (KeyError ''3'')"
    using all_branches_summary [OF b1 b2 ok'] unfolding f' by simp
  have val: "analyze_all_branches_monthly_sales ?S ?B = Inr ([''1''], [150])"
    by (simp add: branches_eval)
  have "list_all (\<lambda>b. b \<noteq> []) ?B" and "list_all sale_ok ?S"
    using b2 ok by (simp_all add: list_all_iff)
  with b1 ex err val show ?thesis by blast
qed

text \<open>
  The claim as first stated has such a sale dropped without an error. Here the first sale
  belongs to the registered branch and the second to a branch that is not registered.
\<close>

theorem unregistered_sale_not_dropped:
  "analyze_all_branches_monthly_sales
     [[''1'', ''1'', ''100'', ''2024-01-05''], [''2'', ''1'', ''70'', ''2024-01-06'']]
     [[''1'', ''A'', ''X'']] = Inl (KeyError ''2'')"
  by (simp add: branches_eval)

section \<open>Digit strings\<close>

lemma digit_not_special:
  "is_digit c \<Longrightarrow> \<not> is_space c \<and> c \<noteq> CHR ''-'' \<and> c \<noteq> CHR ''+'' \<and> c \<noteq> CHR ''_'' \<and>
     c \<noteq> CHR ''/'' \<and> c \<noteq> CHR '' ''"
  by (auto simp: is_digit_def is_space_def)

lemma char_of_digit_val: "is_digit c \<Longrightarrow> char_of (48 + digit_val c) = c"
proof -
  assume "is_digit c"
  then have "48 + digit_val c = (of_char c :: nat)" by (simp add: is_digit_def digit_val_def)
  then show ?thesis by simp
qed

lemma char_of_48: "char_of (48 :: nat) = CHR ''0''"
proof -
  have "of_char (CHR ''0'') = (48 :: nat)" by simp
  then have "char_of (48 :: nat) = char_of (of_char (CHR ''0'') :: nat)" by simp
  then show ?thesis by (simp only: char_of_char)
qed

lemma digit_val_less: "is_digit c \<Longrightarrow> digit_val c < 10"
  by (auto simp: is_digit_def digit_val_def)

lemma decimal_snoc: "decimal (ds @ [c]) = 10 * decimal ds + digit_val c"
  by (simp add: decimal_def)

lemma digits_of_small: "n < 10 \<Longrightarrow> digits_of n = [char_of (48 + n)]"
  by (subst digits_of.simps) simp

lemma digits_of_step: "0 < n \<Longrightarrow> y < 10 \<Longrightarrow> digits_of (10 * n + y) = digits_of n @ [char_of (48 + y)]"
  by (subst digits_of.simps) simp

lemma zero_pad_decimal:
  "ds \<noteq> [] \<Longrightarrow> list_all is_digit ds \<Longrightarrow> zero_pad (length ds) (decimal ds) = ds"
proof (induction ds rule: rev_induct)
  case Nil
  then show ?case by simp
next
  case (snoc c ds)
  have c: "is_digit c" using snoc.prems(2) by simp
  have y: "digit_val c < 10" using c by (rule digit_val_less)
  show ?case
  proof (cases "ds = []")
    case True
    then show ?thesis using c y by (simp add: zero_pad_def decimal_def char_of_digit_val digits_of_small)
  next
    case False
    have ih: "zero_pad (length ds) (decimal ds) = ds"
      using snoc.IH False snoc.prems(2) by simp
    show ?thesis
    proof (cases "decimal ds = 0")
      case True
      have "digits_of (decimal ds) = [CHR ''0'']" using True by (simp add: char_of_48 digits_of_small)
      then have "replicate (length ds - 1) (CHR ''0'') @ [CHR ''0''] = ds"
        using ih by (simp add: zero_pad_def)
      moreover have "replicate (length ds - 1) (CHR ''0'') @ [CHR ''0''] = replicate (length ds) (CHR ''0'')"
        using False by (cases ds) (simp_all add: replicate_append_same)
      ultimately have ds: "replicate (length ds) (CHR ''0'') = ds" by simp
      have "digits_of (decimal (ds @ [c])) = [c]"
        using True y c by (simp add: decimal_snoc char_of_digit_val digits_of_small)
      then show ?thesis using ds by (simp add: zero_pad_def)
    next
      case False
      then have "digits_of (decimal (ds @ [c])) = digits_of (decimal ds) @ [c]"
        using y c by (simp add: decimal_snoc digits_of_step char_of_digit_val)
      then show ?thesis using ih by (simp add: zero_pad_def)
    qed
  qed
qed

lemma scan_digits_all: "ds \<noteq> [] \<Longrightarrow> list_all is_digit ds \<Longrightarrow> scan_digits ds = Some ds"
  by (induction ds rule: scan_digits.induct) (auto simp: digit_not_special)

lemma strip_digits: "ds \<noteq> [] \<Longrightarrow> list_all is_digit ds \<Longrightarrow> strip ds = ds"
proof -
  assume ne: "ds \<noteq> []" and d: "list_all is_digit ds"
  have a: "dropWhile is_space ds = ds"
    using ne d by (cases ds) (auto simp: digit_not_special)
  have "dropWhile is_space (rev ds) = rev ds"
    using ne d by (cases "rev ds") (auto simp: digit_not_special list_all_iff)
  then show ?thesis using a by (simp add: strip_def)
qed

lemma py_int_digits:
  "ds \<noteq> [] \<Longrightarrow> list_all is_digit ds \<Longrightarrow> length ds \<le> max_str_digits \<Longrightarrow>
   py_int ds = Inr (int (decimal ds))"
proof -
  assume ne: "ds \<noteq> []" and d: "list_all is_digit ds" and len: "length ds \<le> max_str_digits"
  have h: "hd ds \<noteq> CHR ''-'' \<and> hd ds \<noteq> CHR ''+''"
    using ne d by (cases ds) (auto simp: digit_not_special)
  show ?thesis
    using h len by (simp add: py_int_def strip_digits [OF ne d] scan_digits_all [OF ne d] Let_def)
qed


section \<open>Parsing a date in ISO form\<close>

lemmas regex_defs = two_chars_def one_char_def between_def

lemma length_10:
  "length s = 10 \<Longrightarrow> \<exists>a b c d p e f q g h. s = [a, b, c, d, p, e, f, q, g, h]"
  by (simp add: numeral_eq_Suc length_Suc_conv) blast

lemma iso_formE:
  assumes "iso_form s"
    and "\<And>a b c d e f g h. s = [a, b, c, d, CHR ''-'', e, f, CHR ''-'', g, h] \<Longrightarrow>
           list_all is_digit [a, b, c, d] \<Longrightarrow> list_all is_digit [e, f] \<Longrightarrow>
           list_all is_digit [g, h] \<Longrightarrow> P"
  shows P
proof -
  from assms(1) have "length s = 10" by (simp add: iso_form_def)
  from length_10 [OF this] show P
  proof (elim exE)
    fix a b c d p e f q g h
    assume s: "s = [a, b, c, d, p, e, f, q, g, h]"
    with assms(1) show P
      by (intro assms(2) [of a b c d e f g h]) (simp_all add: iso_form_def)
  qed
qed

lemma first_some_single [simp]: "first_some [x] = x"
  by (cases x) simp_all

lemma first_some_None [simp]: "first_some [x, None] = x"
  by (cases x) simp_all

lemma alt_year:
  "list_all is_digit [a, b, c, d] \<Longrightarrow> alternatives DY (a # b # c # d # r) = [([a, b, c, d], r)]"
  by simp

lemma alt_month:
  "is_digit e \<Longrightarrow>
   alternatives Dm (e # f # r) =
     (if month2 e f then [([e, f], r)] else [])
     @ (if between (CHR ''1'') (CHR ''9'') e then [([e], f # r)] else [])"
  by (auto simp: regex_defs month2_def)

lemma alt_day:
  "is_digit g \<Longrightarrow>
   alternatives Dd (g # h # r) =
     (if day2 g h then [([g, h], r)] else [])
     @ (if between (CHR ''1'') (CHR ''9'') g then [([g], h # r)] else [])"
  by (auto simp: regex_defs day2_def dest: digit_not_special)

lemma match_lit_digit: "is_digit f \<Longrightarrow> re_match (Lit (CHR ''-'') # items) (f # r) = None"
  by (auto dest: digit_not_special)

lemma match_lit_digit': "is_digit f \<Longrightarrow> re_match (Lit (CHR ''/'') # items) (f # r) = None"
  by (auto dest: digit_not_special)

lemma match_day:
  "is_digit g \<Longrightarrow>
   re_match [Dir Dd] [g, h] =
     (if day2 g h then Some ([(Dd, [g, h])], [])
      else if between (CHR ''1'') (CHR ''9'') g then Some ([(Dd, [g])], [h]) else None)"
  by (simp add: alt_day del: alternatives.simps)

lemma match_month:
  "list_all is_digit [e, f] \<Longrightarrow>
   re_match (Dir Dm # Lit (CHR ''-'') # items) (e # f # CHR ''-'' # r) =
     (if month2 e f then map_option (\<lambda>(groups, rest). ((Dm, [e, f]) # groups, rest)) (re_match items r)
      else None)"
  by (simp add: alt_month match_lit_digit del: alternatives.simps re_match.simps(2))
     (simp split: option.split)

lemma match_ymd:
  assumes "list_all is_digit [a, b, c, d]" "list_all is_digit [e, f]" "list_all is_digit [g, h]"
  shows "re_match fmt_ymd [a, b, c, d, CHR ''-'', e, f, CHR ''-'', g, h] =
     (if month2 e f then
        (if day2 g h then Some ([(DY, [a, b, c, d]), (Dm, [e, f]), (Dd, [g, h])], [])
         else if between (CHR ''1'') (CHR ''9'') g
              then Some ([(DY, [a, b, c, d]), (Dm, [e, f]), (Dd, [g])], [h]) else None)
      else None)"
proof -
  have "re_match fmt_ymd [a, b, c, d, CHR ''-'', e, f, CHR ''-'', g, h] =
     map_option (\<lambda>(groups, rest). ((DY, [a, b, c, d]) # groups, rest))
       (re_match (Dir Dm # Lit (CHR ''-'') # [Dir Dd]) (e # f # CHR ''-'' # [g, h]))"
    unfolding fmt_ymd_def re_match.simps(3) [of DY] alt_year [OF assms(1)]
    by (simp del: re_match.simps(3))
  also have "\<dots> = map_option (\<lambda>(groups, rest). ((DY, [a, b, c, d]) # groups, rest))
       (if month2 e f then map_option (\<lambda>(groups, rest). ((Dm, [e, f]) # groups, rest)) (re_match [Dir Dd] [g, h])
      else None)"
    by (simp only: match_month [OF assms(2)])
  finally show ?thesis
    using assms(3) by (simp add: match_day del: re_match.simps)
qed

lemma match_mdy_iso:
  assumes "list_all is_digit [a, b, c, d]"
  shows "re_match fmt_mdy (a # b # c # r) = None"
proof -
  have "alternatives Dm (a # b # c # r) =
     (if month2 a b then [([a, b], c # r)] else [])
     @ (if between (CHR ''1'') (CHR ''9'') a then [([a], b # c # r)] else [])"
    using assms by (simp add: alt_month del: alternatives.simps)
  then show ?thesis
    unfolding fmt_mdy_def re_match.simps(3) [of Dm]
    using assms by (simp add: match_lit_digit' del: alternatives.simps re_match.simps)
qed


lemma group_int_digits:
  "map_of groups k = Some ds \<Longrightarrow> ds \<noteq> [] \<Longrightarrow> list_all is_digit ds \<Longrightarrow> length ds \<le> 4 \<Longrightarrow>
   group_int k dflt groups = Some (int (decimal ds))"
  by (simp add: group_int_def py_int_digits max_str_digits_def)

lemma strptime_ymd_iso:
  assumes "list_all is_digit [a, b, c, d]" "list_all is_digit [e, f]" "list_all is_digit [g, h]"
    and "strptime [a, b, c, d, CHR ''-'', e, f, CHR ''-'', g, h] fmt_ymd = Some t"
  shows "year t = int (decimal [a, b, c, d]) \<and> month t = int (decimal [e, f]) \<and>
         day t = int (decimal [g, h])"
proof -
  let ?groups = "[(DY, [a, b, c, d]), (Dm, [e, f]), (Dd, [g, h])]"
  have m: "re_match fmt_ymd [a, b, c, d, CHR ''-'', e, f, CHR ''-'', g, h] = Some (?groups, [])"
    using assms(4) unfolding strptime_def match_ymd [OF assms(1-3)]
    by (simp split: if_splits)
  have y: "group_int DY 1900 ?groups = Some (int (decimal [a, b, c, d]))"
    using assms(1) by (intro group_int_digits) simp_all
  have mo: "group_int Dm 1 ?groups = Some (int (decimal [e, f]))"
    using assms(2) by (intro group_int_digits) simp_all
  have d: "group_int Dd 1 ?groups = Some (int (decimal [g, h]))"
    using assms(3) by (intro group_int_digits) simp_all
  show ?thesis
    using assms(4) by (auto simp: strptime_def m y mo d split: if_splits)
qed

lemma strptime_mdy_iso:
  assumes "list_all is_digit [a, b, c, d]"
  shows "strptime (a # b # c # r) fmt_mdy = None"
  using match_mdy_iso [OF assms, of r] by (simp add: strptime_def)

lemma parse_date_cases:
  "parse_date s =
     (case strptime s fmt_ymd of
        Some t \<Rightarrow> Inr t
      | None \<Rightarrow> (case strptime s fmt_mdy of Some t \<Rightarrow> Inr t | None \<Rightarrow> Inl (DateValueError s)))"
  by (simp add: parse_date_def split: option.split)

lemmas date_eval = parse_date_def strptime_def fmt_ymd_def fmt_mdy_def regex_defs group_int_def
  py_int_eval check_date_fields_def days_in_month_def is_leap_def DAYS_IN_MONTH_def
  MINYEAR_def MAXYEAR_def

lemma parse_2024_02_29:
  "parse_date ''2024-02-29'' =
     Inr \<lparr>year = 2024, month = 2, day = 29, hour = 0, minute = 0, second = 0, microsecond = 0\<rparr>"
  by (simp add: date_eval)

lemma digits_of_nonempty: "digits_of n \<noteq> []"
  by (subst digits_of.simps) simp

lemma length_digits_of: "10 ^ k \<le> n \<Longrightarrow> k < length (digits_of n)"
proof (induction k arbitrary: n)
  case 0
  then show ?case using digits_of_nonempty [of n] by (cases "digits_of n") simp_all
next
  case (Suc k)
  from Suc.prems have "10 ^ k \<le> n div 10" by simp
  then have "k < length (digits_of (n div 10))" by (rule Suc.IH)
  moreover from Suc.prems have "\<not> n < 10"
    by (metis not_less one_le_numeral one_le_power order_trans power_Suc mult.right_neutral
        mult_le_mono2 le_trans)
  ultimately show ?case by (subst digits_of.simps) simp
qed

lemma digits_of_decimal4:
  assumes "list_all is_digit [a, b, c, d]" and "1000 \<le> decimal [a, b, c, d]"
  shows "digits_of (decimal [a, b, c, d]) = [a, b, c, d]"
proof -
  have len4: "length [a, b, c, d] = 4" by simp
  have z: "zero_pad 4 (decimal [a, b, c, d]) = [a, b, c, d]"
    unfolding len4 [symmetric] using assms(1) by (intro zero_pad_decimal) simp_all
  have "10 ^ 3 \<le> decimal [a, b, c, d]" using assms(2) by simp
  then have "3 < length (digits_of (decimal [a, b, c, d]))" by (rule length_digits_of)
  then show ?thesis using z by (simp add: zero_pad_def)
qed

text \<open>
  Claim C9, as amended. A string in the form \<^verbatim>\<open>YYYY-MM-DD\<close> that the parser accepts and
  whose year is at least 1000 is reproduced by formatting the parsed date with
  \<^verbatim>\<open>%Y-%m-%d\<close>.
\<close>

theorem parse_format_roundtrip:
  assumes "iso_form s" and "parse_date s = Inr t" and "1000 \<le> year t"
  shows "strftime t fmt_ymd = s"
  using assms(1)
proof (rule iso_formE)
  fix a b c d e f g h
  assume s: "s = [a, b, c, d, CHR ''-'', e, f, CHR ''-'', g, h]"
    and y: "list_all is_digit [a, b, c, d]" and m: "list_all is_digit [e, f]"
    and d: "list_all is_digit [g, h]"
  have "strptime s fmt_mdy = None" unfolding s using y by (rule strptime_mdy_iso)
  with assms(2) have "strptime s fmt_ymd = Some t"
    by (simp add: parse_date_cases split: option.splits)
  then have fields: "year t = int (decimal [a, b, c, d]) \<and> month t = int (decimal [e, f]) \<and>
         day t = int (decimal [g, h])"
    unfolding s using y m d by (intro strptime_ymd_iso)
  have len2: "length [e, f] = 2" "length [g, h] = 2"
    by simp_all
  have "1000 \<le> decimal [a, b, c, d]" using fields assms(3) by simp
  then have "digits_of (decimal [a, b, c, d]) = [a, b, c, d]"
    using y by (intro digits_of_decimal4)
  moreover have "zero_pad 2 (decimal [e, f]) = [e, f]"
    unfolding len2(1) [symmetric] using m by (intro zero_pad_decimal) simp_all
  moreover have "zero_pad 2 (decimal [g, h]) = [g, h]"
    unfolding len2(2) [symmetric] using d by (intro zero_pad_decimal) simp_all
  ultimately show ?thesis
    using fields by (simp add: strftime_def fmt_ymd_def s)
qed

theorem parse_format_roundtrip_witness:
  "iso_form ''2024-02-29'' \<and>
   parse_date ''2024-02-29'' =
     Inr \<lparr>year = 2024, month = 2, day = 29, hour = 0, minute = 0, second = 0, microsecond = 0\<rparr> \<and>
   1000 \<le> year \<lparr>year = 2024, month = 2, day = 29, hour = 0, minute = 0, second = 0,
                  microsecond = 0\<rparr> \<and>
   strftime \<lparr>year = 2024, month = 2, day = 29, hour = 0, minute = 0, second = 0, microsecond = 0\<rparr>
     fmt_ymd = ''2024-02-29''"
proof -
  let ?t = "\<lparr>year = 2024, month = 2, day = 29, hour = 0, minute = 0, second = 0, microsecond = 0\<rparr>"
  have i: "iso_form ''2024-02-29''" by (simp add: iso_form_def is_digit_def)
  have y: "1000 \<le> year ?t" by simp
  from parse_format_roundtrip [OF i parse_2024_02_29 y] i parse_2024_02_29 y show ?thesis by simp
qed

text \<open>
  The claim as first stated covers every valid date. A year below 1000 is written without
  its leading zeros, so the string does not come back.
\<close>

theorem short_year_not_reproduced:
  "iso_form ''0999-01-01'' \<and>
   parse_date ''0999-01-01'' =
     Inr \<lparr>year = 999, month = 1, day = 1, hour = 0, minute = 0, second = 0, microsecond = 0\<rparr> \<and>
   strftime \<lparr>year = 999, month = 1, day = 1, hour = 0, minute = 0, second = 0, microsecond = 0\<rparr>
     fmt_ymd = ''999-01-01''"
proof -
  have i: "iso_form ''0999-01-01''" by (simp add: iso_form_def is_digit_def)
  have p: "parse_date ''0999-01-01'' =
     Inr \<lparr>year = 999, month = 1, day = 1, hour = 0, minute = 0, second = 0, microsecond = 0\<rparr>"
    by (simp add: date_eval)
  have y: "digits_of 999 = ''999''"
  proof -
    have "zero_pad (length ''999'') (decimal ''999'') = ''999''"
      by (intro zero_pad_decimal) (simp_all add: is_digit_def)
    moreover have "decimal ''999'' = 999" by (simp add: decimal_def digit_val_def)
    moreover have "2 < length (digits_of 999)" by (intro length_digits_of) simp
    ultimately show ?thesis by (simp add: zero_pad_def)
  qed
  have m: "zero_pad 2 1 = ''01''"
  proof -
    have "zero_pad (length ''01'') (decimal ''01'') = ''01''"
      by (intro zero_pad_decimal) (simp_all add: is_digit_def)
    moreover have "decimal ''01'' = 1" by (simp add: decimal_def digit_val_def)
    moreover have "length ''01'' = 2" by simp
    ultimately show ?thesis by (simp only:)
  qed
  have "strftime \<lparr>year = 999, month = 1, day = 1, hour = 0, minute = 0, second = 0,
                  microsecond = 0\<rparr> fmt_ymd = ''999-01-01''"
    using y m by (simp add: strftime_def fmt_ymd_def)
  with i p show ?thesis by blast
qed


section \<open>The date parser: ISO form first, then the slash form\<close>

text \<open>
  Claim C4. The parser tries \<^verbatim>\<open>%Y-%m-%d\<close> first and \<^verbatim>\<open>%m/%d/%Y\<close> second and returns
  the date of the first format that parses; it raises its own \<^verbatim>\<open>ValueError\<close>, carrying
  the string, exactly when neither format parses.
\<close>

theorem parse_date_first_match:
  "parse_date date_str =
     (case strptime date_str fmt_ymd of
        Some t \<Rightarrow> Inr t
      | None \<Rightarrow>
          (case strptime date_str fmt_mdy of
             Some t \<Rightarrow> Inr t
           | None \<Rightarrow> Inl (DateValueError date_str))) \<and>
   isl (parse_date date_str) =
     (strptime date_str fmt_ymd = None \<and> strptime date_str fmt_mdy = None)"
  by (simp add: parse_date_def split: option.split)

lemma parse_date_examples:
  "parse_date ''2024-01-05'' =
     Inr \<lparr>year = 2024, month = 1, day = 5, hour = 0, minute = 0, second = 0, microsecond = 0\<rparr>"
  "parse_date ''01/05/2024'' =
     Inr \<lparr>year = 2024, month = 1, day = 5, hour = 0, minute = 0, second = 0, microsecond = 0\<rparr>"
  "parse_date ''05.01.2024'' = Inl (DateValueError ''05.01.2024'')"
  "parse_date ''2023-02-29'' = Inl (DateValueError ''2023-02-29'')"
  by (simp_all add: date_eval)

lemma unpadded_date_accepted:
  "parse_date ''2024-1-5'' =
     Inr \<lparr>year = 2024, month = 1, day = 5, hour = 0, minute = 0, second = 0, microsecond = 0\<rparr>"
  by (simp add: date_eval)

section \<open>The week of the current date\<close>

text \<open>
  The day number of a valid date lies in the range of \<^verbatim>\<open>datetime\<close>, and going back to
  the Monday of its week stays in the range, since day 1 is a Monday.
\<close>

lemmas calendar_eval = sub_days_def add_days_def toordinal_def weekday_def ymd2ord_def
  days_before_year_def days_before_month_def DAYS_BEFORE_MONTH_def DAYS_IN_MONTH_def is_leap_def
  ord2ymd_def DI400Y_def DI100Y_def DI4Y_def MAXORDINAL_def Let_def dt_le_def dt_tuple_def

lemma days_before_year_bounds:
  assumes "1 \<le> y" "y \<le> 9998"
  shows "0 \<le> days_before_year y \<and> days_before_year y \<le> 3651428"
proof -
  define z where "z = y - 1"
  define q4 where "q4 = z div 4"
  define q100 where "q100 = z div 100"
  define q400 where "q400 = z div 400"
  have z: "0 \<le> z" "z \<le> 9997" using assms by (simp_all add: z_def)
  have "z div 4 \<le> 9997 div 4" using z(2) by (intro zdiv_mono1) simp_all
  then have a: "q4 \<le> 2499" by (simp add: q4_def)
  have "z div 100 \<le> z div 4" using z(1) by (intro zdiv_mono2) simp_all
  then have b: "q100 \<le> q4" by (simp add: q4_def q100_def)
  have c: "0 \<le> q100" using z(1) by (simp add: q100_def)
  have "z div 400 \<le> 9997 div 400" using z(2) by (intro zdiv_mono1) simp_all
  then have d: "q400 \<le> 24" by (simp add: q400_def)
  have e: "0 \<le> q400" using z(1) by (simp add: q400_def)
  have "days_before_year y = z * 365 + q4 - q100 + q400"
    by (simp add: days_before_year_def Let_def z_def q4_def q100_def q400_def)
  then show ?thesis using z a b c d e by linarith
qed

lemma days_before_year_9999: "days_before_year 9999 = 3651694"
  by (simp add: days_before_year_def)


lemma month_cases:
  "1 \<le> m \<Longrightarrow> m \<le> 12 \<Longrightarrow>
   m = 1 \<or> m = 2 \<or> m = 3 \<or> m = 4 \<or> m = 5 \<or> m = 6 \<or> m = 7 \<or> m = 8 \<or> m = 9 \<or> m = 10 \<or>
   m = 11 \<or> m = (12 :: int)"
  by arith

lemma day_of_year_bounds:
  assumes "1 \<le> m" "m \<le> 12" "1 \<le> d" "d \<le> days_in_month y m"
  shows "1 \<le> days_before_month y m + d \<and>
         days_before_month y m + d \<le> (if is_leap y then 366 else 365)"
  using month_cases [OF assms(1,2)] assms(3,4)
  by (elim disjE)
     (simp_all add: days_before_month_def days_in_month_def DAYS_BEFORE_MONTH_def DAYS_IN_MONTH_def
        split: if_splits)

lemma toordinal_range:
  assumes "check_date_fields (year t) (month t) (day t)"
  shows "1 \<le> toordinal t \<and> toordinal t \<le> MAXORDINAL"
proof -
  from assms have y: "1 \<le> year t" "year t \<le> 9999" and m: "1 \<le> month t" "month t \<le> 12"
    and d: "1 \<le> day t" "day t \<le> days_in_month (year t) (month t)"
    by (simp_all add: check_date_fields_def MINYEAR_def MAXYEAR_def)
  note b = day_of_year_bounds [OF m d]
  show ?thesis
  proof (cases "year t = 9999")
    case True
    have "\<not> is_leap 9999" by (simp add: is_leap_def)
    then show ?thesis using b True
      by (simp add: toordinal_def ymd2ord_def MAXORDINAL_def days_before_year_9999)
  next
    case False
    then have "year t \<le> 9998" using y(2) by simp
    from days_before_year_bounds [OF y(1) this] b show ?thesis
      by (simp add: toordinal_def ymd2ord_def MAXORDINAL_def split: if_splits)
  qed
qed

lemma week_start_exists:
  assumes "check_date_fields (year t) (month t) (day t)"
  shows "\<exists>week_start. sub_days t (weekday t) = Inr week_start"
proof -
  from toordinal_range [OF assms] have r: "1 \<le> toordinal t" "toordinal t \<le> MAXORDINAL" by simp_all
  have "weekday t = (toordinal t - 1) mod 7"
    by (simp add: weekday_def) presburger
  also have "\<dots> \<le> toordinal t - 1" using r(1) by (intro zmod_le_nonneg_dividend) simp
  finally have "0 < toordinal t - weekday t" by simp
  moreover have "0 \<le> weekday t" by (simp add: weekday_def)
  ultimately show ?thesis using r(2)
    by (simp add: sub_days_def add_days_def Let_def split: prod.split)
qed


section \<open>Weekly sales: a date that does not parse\<close>

lemma parse_date_error: "parse_date s = Inl e \<Longrightarrow> e = DateValueError s"
  by (auto simp: parse_date_def split: option.splits)

lemma in_week_ok:
  "sale_ok s \<Longrightarrow> \<not> isl (parse_date (s ! 3)) \<Longrightarrow>
   in_week ws we s = Inr (dt_le ws (date_of s) \<and> dt_le (date_of s) we)"
  by (cases "parse_date (s ! 3)") (auto simp: in_week_def getitem_def sale_ok_def date_of_def)

lemma in_week_bad:
  "sale_ok s \<Longrightarrow> isl (parse_date (s ! 3)) \<Longrightarrow> in_week ws we s = Inl (DateValueError (s ! 3))"
  by (cases "parse_date (s ! 3)")
     (auto simp: in_week_def getitem_def sale_ok_def dest: parse_date_error)

lemma amounts_where_bad_date:
  "\<forall>s\<in>set sales. sale_ok s \<Longrightarrow> find (\<lambda>s. isl (parse_date (s ! 3))) sales = Some bad \<Longrightarrow>
   amounts_where (in_week ws we) sales = Inl (DateValueError (bad ! 3))"
proof (induction sales)
  case Nil
  then show ?case by simp
next
  case (Cons s sales)
  show ?case
  proof (cases "isl (parse_date (s ! 3))")
    case True
    then show ?thesis using Cons.prems by (simp add: in_week_bad)
  next
    case False
    then have "amounts_where (in_week ws we) sales = Inl (DateValueError (bad ! 3))"
      using Cons by simp
    then show ?thesis using False Cons.prems(1)
      by (simp add: in_week_ok sale_amount_ok split: bool.split)
  qed
qed

text \<open>
  Claim C7. When some row of well-formed sale records has a date that matches neither
  format, the filter on the date window raises the parser's error for the first such row,
  whatever the window is; the row is not skipped and no list is produced. So the weekly
  report never returns a result on such a log, and it raises that same error whenever the
  two bounds of the week have been computed.
\<close>

theorem bad_date_aborts_weekly:
  assumes "\<forall>s\<in>set sales_data. sale_ok s"
    and "bad \<in> set sales_data" and "isl (parse_date (bad ! 3))"
  shows "\<exists>s. find (\<lambda>s. isl (parse_date (s ! 3))) sales_data = Some s \<and>
           amounts_where (in_week week_start week_end) sales_data = Inl (DateValueError (s ! 3)) \<and>
           isl (analyze_weekly_sales np current_date sales_data) \<and>
           (sub_days current_date (weekday current_date) = Inr week_start \<and>
            add_days week_start 6 = Inr week_end \<longrightarrow>
              analyze_weekly_sales np current_date sales_data = Inl (DateValueError (s ! 3)))"
proof -
  from assms(2,3) obtain s where s: "find (\<lambda>s. isl (parse_date (s ! 3))) sales_data = Some s"
    by (cases "find (\<lambda>s. isl (parse_date (s ! 3))) sales_data") (auto simp: find_None_iff)
  have a: "\<And>ws we. amounts_where (in_week ws we) sales_data = Inl (DateValueError (s ! 3))"
    using assms(1) s by (rule amounts_where_bad_date)
  have "isl (analyze_weekly_sales np current_date sales_data)"
    by (simp add: analyze_weekly_sales_def a split: sum.split)
  moreover have "sub_days current_date (weekday current_date) = Inr week_start \<and>
            add_days week_start 6 = Inr week_end \<longrightarrow>
              analyze_weekly_sales np current_date sales_data = Inl (DateValueError (s ! 3))"
    by (simp add: analyze_weekly_sales_def a)
  ultimately show ?thesis using s a by blast
qed

theorem bad_date_aborts_weekly_witness:
  "list_all sale_ok [[''1'', ''1'', ''300'', ''2024-01-09''], [''1'', ''2'', ''40'', ''09.01.2024'']] \<and>
   [''1'', ''2'', ''40'', ''09.01.2024'']
     \<in> set [[''1'', ''1'', ''300'', ''2024-01-09''], [''1'', ''2'', ''40'', ''09.01.2024'']] \<and>
   isl (parse_date ([''1'', ''2'', ''40'', ''09.01.2024''] ! 3)) \<and>
   (\<forall>np. analyze_weekly_sales np
     \<lparr>year = 2024, month = 1, day = 10, hour = 0, minute = 0, second = 0, microsecond = 0\<rparr>
     [[''1'', ''1'', ''300'', ''2024-01-09''], [''1'', ''2'', ''40'', ''09.01.2024'']]
     = Inl (DateValueError ''09.01.2024''))"
proof -
  let ?D = "\<lparr>year = 2024, month = 1, day = 10, hour = 0, minute = 0, second = 0, microsecond = 0\<rparr>"
  let ?WS = "\<lparr>year = 2024, month = 1, day = 8, hour = 0, minute = 0, second = 0, microsecond = 0\<rparr>"
  let ?WE = "\<lparr>year = 2024, month = 1, day = 14, hour = 0, minute = 0, second = 0, microsecond = 0\<rparr>"
  let ?bad = "[''1'', ''2'', ''40'', ''09.01.2024'']"
  let ?S = "[[''1'', ''1'', ''300'', ''2024-01-09''], ?bad]"
  have ws: "sub_days ?D (weekday ?D) = Inr ?WS" by (simp add: calendar_eval)
  have we: "add_days ?WS 6 = Inr ?WE" by (simp add: calendar_eval)
  have d: "parse_date ''09.01.2024'' = Inl (DateValueError ''09.01.2024'')"
    "parse_date ''2024-01-09'' =
       Inr \<lparr>year = 2024, month = 1, day = 9, hour = 0, minute = 0, second = 0, microsecond = 0\<rparr>"
    by (simp_all add: date_eval)
  have ok: "\<forall>s\<in>set ?S. sale_ok s" by (simp add: sale_ok_def py_int_eval)
  have mem: "?bad \<in> set ?S" by simp
  have bad: "isl (parse_date (?bad ! 3))" by (simp add: d)
  have f: "find (\<lambda>s. isl (parse_date (s ! 3))) ?S = Some ?bad" by (simp add: d)
  have "analyze_weekly_sales np ?D ?S = Inl (DateValueError ''09.01.2024'')" for np
    using bad_date_aborts_weekly [OF ok mem bad, of ?WS ?WE np ?D] ws we unfolding f by simp
  moreover have "list_all sale_ok ?S" using ok by (simp add: list_all_iff)
  ultimately show ?thesis using mem bad by blast
qed

section \<open>Weekly sales: the window starts at the current time of day\<close>

lemma weekly_sales_window:
  assumes "sub_days current_date (weekday current_date) = Inr week_start"
    and "add_days week_start 6 = Inr week_end"
    and "\<forall>s\<in>set sales_data. sale_ok s \<and> \<not> isl (parse_date (s ! 3))"
  shows "analyze_weekly_sales np current_date sales_data =
     (let kept = map amount_of
            (filter (\<lambda>s. dt_le week_start (date_of s) \<and> dt_le (date_of s) week_end) sales_data)
      in if kept = [] then Inr (0, 0)
         else (case np_mean np kept of
                 Inl e \<Rightarrow> Inl e
               | Inr average_sales \<Rightarrow> Inr (sum_list kept, average_sales)))"
proof -
  have "amounts_where (in_week week_start week_end) sales_data =
      Inr (map amount_of
            (filter (\<lambda>s. dt_le week_start (date_of s) \<and> dt_le (date_of s) week_end) sales_data))"
    using assms(3) by (intro amounts_where_ok) (simp add: in_week_ok)
  then show ?thesis
    using assms(1,2) by (simp add: analyze_weekly_sales_def Let_def)
qed

text \<open>
  Claim C2. The claim has the report keep the sales of the Monday-to-Sunday week of the
  reference date, total their amounts and average them. The code subtracts the weekday
  index from \<^verbatim>\<open>datetime.today()\<close>, which carries the time of day, so the window starts on
  the Monday at the current time of day and not at the start of the Monday; a sale is
  dated at midnight. On Wednesday 2024-01-10 at 09:30 the window starts on Monday
  2024-01-08 at 09:30, a sale of 300 dated 2024-01-08 is left out, and the report is a
  total of 0 and an average of 0 where the claim gives 300 and 300. At midnight of the
  same day the sale is kept.
\<close>

theorem monday_sale_left_out:
  "analyze_weekly_sales np
     \<lparr>year = 2024, month = 1, day = 10, hour = 9, minute = 30, second = 0, microsecond = 0\<rparr>
     [[''1'', ''1'', ''300'', ''2024-01-08'']] = Inr (0, 0) \<and>
   weekday \<lparr>year = 2024, month = 1, day = 8, hour = 0, minute = 0, second = 0, microsecond = 0\<rparr>
     = 0 \<and>
   sub_days
     \<lparr>year = 2024, month = 1, day = 10, hour = 9, minute = 30, second = 0, microsecond = 0\<rparr>
     (weekday
        \<lparr>year = 2024, month = 1, day = 10, hour = 9, minute = 30, second = 0, microsecond = 0\<rparr>)
     = Inr \<lparr>year = 2024, month = 1, day = 8, hour = 9, minute = 30, second = 0,
            microsecond = 0\<rparr> \<and>
   parse_date ''2024-01-08'' =
     Inr \<lparr>year = 2024, month = 1, day = 8, hour = 0, minute = 0, second = 0, microsecond = 0\<rparr> \<and>
   analyze_weekly_sales np
     \<lparr>year = 2024, month = 1, day = 10, hour = 0, minute = 0, second = 0, microsecond = 0\<rparr>
     [[''1'', ''1'', ''300'', ''2024-01-08'']] =
     (case np_mean np [300] of Inl e \<Rightarrow> Inl e | Inr average_sales \<Rightarrow> Inr (300, average_sales))"
proof -
  have d: "parse_date ''2024-01-08'' =
     Inr \<lparr>year = 2024, month = 1, day = 8, hour = 0, minute = 0, second = 0, microsecond = 0\<rparr>"
    by (simp add: date_eval)
  have a: "py_int ''300'' = Inr 300" by (simp add: py_int_eval)
  show ?thesis
    by (simp add: analyze_weekly_sales_def in_week_def getitem_def sale_amount_def a d
        calendar_eval split: sum.split)
qed

end
